theory Spec2Isabelle
  imports Complex_Main
begin

section \<open>The k-d tree of ia\_utilities.c\<close>

text \<open>
  The embedding follows \<^verbatim>\<open>src/storm_analysis/sa_library/ia_utilities.c\<close>.
  Conventions of the model:
  \<^item> a \<^verbatim>\<open>double\<close> is a real number and its arithmetic is exact. This is what the code
    computes whenever every operand and every intermediate result is representable in
    binary64, as at the inputs evaluated below (small integers and dyadic fractions).
    The nearest neighbour search, whose result depends on comparisons of computed
    distances at arbitrary inputs, is given a second time with a rounding after every
    subtraction, multiplication and addition (\<open>kd_nearest_fl\<close>). Infinities and NaN are
    outside the model;
  \<^item> a C \<^verbatim>\<open>int\<close> is an \<open>int\<close> (or a \<open>nat\<close> where it is a dimension, an axis or an
    array index that the code only ever counts upwards from zero); no computation of the
    properties below comes near the 32-bit limits;
  \<^item> \<^verbatim>\<open>malloc\<close> always succeeds, so the \<^verbatim>\<open>return -1\<close> / \<^verbatim>\<open>return 0\<close> paths taken on
    allocation failure are absent;
  \<^item> a pointer to a node is the node itself, the null pointer is \<open>Null\<close>; a \<^verbatim>\<open>double *\<close>
    array is a list, read with \<open>!\<close>;
  \<^item> the result list hanging off the dummy head \<^verbatim>\<open>rset->rlist\<close> is the list of its
    entries, first entry first.
\<close>

subsection \<open>Data\<close>

datatype 'a kdnode =
    Null
  | Node (pos: "real list") (dir: nat) (data: 'a) (left: "'a kdnode") (right: "'a kdnode")

record kdhyperrect =
  rdim :: nat
  rmin :: "real list"
  rmax :: "real list"

record 'a res_node =
  item :: "'a kdnode"
  dist_sq :: real

record 'a kdtree =
  tdim :: nat
  troot :: "'a kdnode"
  trect :: "kdhyperrect option"

record 'a kdres =
  rlist :: "'a res_node list"
  rsize :: int

definition SQ :: "real \<Rightarrow> real" where
  "SQ x = x * x"

subsection \<open>Creation and insertion\<close>

definition kd_create :: "nat \<Rightarrow> 'a kdtree" where
  "kd_create k = \<lparr>tdim = k, troot = Null, trect = None\<rparr>"

fun insert_rec :: "'a kdnode \<Rightarrow> real list \<Rightarrow> 'a \<Rightarrow> nat \<Rightarrow> nat \<Rightarrow> 'a kdnode" where
  "insert_rec Null p d dr dm = Node (take dm p) dr d Null Null"
| "insert_rec (Node np nd ndat l r) p d dr dm =
     (let new_dir = (nd + 1) mod dm in
      if p ! nd < np ! nd
      then Node np nd ndat (insert_rec l p d new_dir dm) r
      else Node np nd ndat l (insert_rec r p d new_dir dm))"

definition hyperrect_create :: "nat \<Rightarrow> real list \<Rightarrow> real list \<Rightarrow> kdhyperrect" where
  "hyperrect_create dm mn mx = \<lparr>rdim = dm, rmin = take dm mn, rmax = take dm mx\<rparr>"

definition hyperrect_duplicate :: "kdhyperrect \<Rightarrow> kdhyperrect" where
  "hyperrect_duplicate rc = hyperrect_create (rdim rc) (rmin rc) (rmax rc)"

text \<open>One round of the loop of \<^verbatim>\<open>hyperrect_extend\<close>, for axis \<open>i\<close>.\<close>

definition hyperrect_extend_axis :: "real list \<Rightarrow> nat \<Rightarrow> kdhyperrect \<Rightarrow> kdhyperrect" where
  "hyperrect_extend_axis p i rc =
     (let rc1 = (if p ! i < rmin rc ! i then rc\<lparr>rmin := (rmin rc)[i := p ! i]\<rparr> else rc)
      in if p ! i > rmax rc1 ! i then rc1\<lparr>rmax := (rmax rc1)[i := p ! i]\<rparr> else rc1)"

definition hyperrect_extend :: "kdhyperrect \<Rightarrow> real list \<Rightarrow> kdhyperrect" where
  "hyperrect_extend rc p = fold (hyperrect_extend_axis p) [0..<rdim rc] rc"

definition hyperrect_dist_sq :: "kdhyperrect \<Rightarrow> real list \<Rightarrow> real" where
  "hyperrect_dist_sq rc p =
     fold (\<lambda>i result.
             if p ! i < rmin rc ! i then result + SQ (rmin rc ! i - p ! i)
             else if p ! i > rmax rc ! i then result + SQ (rmax rc ! i - p ! i)
             else result)
          [0..<rdim rc] 0"

definition kd_insert :: "'a kdtree \<Rightarrow> real list \<Rightarrow> 'a \<Rightarrow> 'a kdtree" where
  "kd_insert tree p d =
     tree\<lparr>troot := insert_rec (troot tree) p d 0 (tdim tree),
          trect := Some (case trect tree of
                          None \<Rightarrow> hyperrect_create (tdim tree) p p
                        | Some rc \<Rightarrow> hyperrect_extend rc p)\<rparr>"

subsection \<open>Result lists\<close>

text \<open>
  \<^verbatim>\<open>rlist_insert\<close>: with a non-negative \<open>dsq\<close> the entry is put before the first entry
  whose distance is not smaller, otherwise at the head of the list.
\<close>

fun rlist_skip :: "'a res_node list \<Rightarrow> 'a res_node \<Rightarrow> 'a res_node list" where
  "rlist_skip [] rnode = [rnode]"
| "rlist_skip (e # es) rnode =
     (if dist_sq e < dist_sq rnode then e # rlist_skip es rnode else rnode # e # es)"

definition rlist_insert :: "'a res_node list \<Rightarrow> 'a kdnode \<Rightarrow> real \<Rightarrow> 'a res_node list" where
  "rlist_insert lst it dsq =
     (let rnode = \<lparr>item = it, dist_sq = dsq\<rparr>
      in if dsq \<ge> 0 then rlist_skip lst rnode else rnode # lst)"

text \<open>
  The squared distance loop \<^verbatim>\<open>for(i=0; i<dim; i++) dist_sq += SQ(node->pos[i] - pos[i])\<close>,
  which \<^verbatim>\<open>find_nearest\<close>, \<^verbatim>\<open>kd_nearest_i\<close> and \<^verbatim>\<open>kd_nearest\<close> each contain, in exact
  arithmetic; \<open>node_dist_sq_fl\<close> below is the same loop with rounding.
\<close>

definition node_dist_sq :: "nat \<Rightarrow> real list \<Rightarrow> real list \<Rightarrow> real" where
  "node_dist_sq dm np p = fold (\<lambda>i d. d + SQ (np ! i - p ! i)) [0..<dm] 0"

subsection \<open>Range search\<close>

text \<open>
  \<^verbatim>\<open>find_nearest\<close> returns the number of entries it added together with the list.
  \<open>ordered\<close> is the C flag; \<^verbatim>\<open>kd_nearest_range\<close> passes 0.
\<close>

fun find_nearest ::
  "'a kdnode \<Rightarrow> real list \<Rightarrow> real \<Rightarrow> 'a res_node list \<Rightarrow> bool \<Rightarrow> nat \<Rightarrow> int \<times> 'a res_node list"
where
  "find_nearest Null p rng lst ordered dm = (0, lst)"
| "find_nearest (Node np nd ndat l r) p rng lst ordered dm =
     (let dsq = node_dist_sq dm np p;
          (added_res, lst1) =
             (if dsq \<le> SQ rng
              then (1, rlist_insert lst (Node np nd ndat l r) (if ordered then dsq else - 1))
              else (0, lst));
          dx = p ! nd - np ! nd;
          (ret, lst2) = (if dx \<le> 0 then find_nearest l p rng lst1 ordered dm
                         else find_nearest r p rng lst1 ordered dm)
      in if ret \<ge> 0 \<and> \<bar>dx\<bar> < rng
         then (let (ret2, lst3) = (if dx \<le> 0 then find_nearest r p rng lst2 ordered dm
                                   else find_nearest l p rng lst2 ordered dm)
               in (added_res + ret + ret2, lst3))
         else (added_res + ret, lst2))"

definition kd_nearest_range :: "'a kdtree \<Rightarrow> real list \<Rightarrow> real \<Rightarrow> 'a kdres" where
  "kd_nearest_range kd p rng =
     (let (ret, lst) = find_nearest (troot kd) p rng [] False (tdim kd)
      in \<lparr>rlist = lst, rsize = ret\<rparr>)"

subsection \<open>Nearest neighbour search\<close>

text \<open>
  \<^verbatim>\<open>kd_nearest_i\<close> updates \<^verbatim>\<open>*result\<close> and \<^verbatim>\<open>*result_dist_sq\<close> in place: the model takes
  the pair and returns it. The slice of the hyperrectangle is undone after each recursive
  call, so the model hands the sliced copy to the call and keeps its own.
  The function is only called on a non-null node.
\<close>

fun kd_nearest_i ::
  "'a kdnode \<Rightarrow> real list \<Rightarrow> 'a kdnode \<times> real \<Rightarrow> kdhyperrect \<Rightarrow> 'a kdnode \<times> real"
where
  "kd_nearest_i Null p res rc = res"
| "kd_nearest_i (Node np nd ndat l r) p res rc =
     (let dummy = p ! nd - np ! nd;
          res1 = (if dummy \<le> 0
                  then (if l \<noteq> Null
                        then kd_nearest_i l p res (rc\<lparr>rmax := (rmax rc)[nd := np ! nd]\<rparr>)
                        else res)
                  else (if r \<noteq> Null
                        then kd_nearest_i r p res (rc\<lparr>rmin := (rmin rc)[nd := np ! nd]\<rparr>)
                        else res));
          dsq = node_dist_sq (rdim rc) np p;
          res2 = (if dsq < snd res1 then (Node np nd ndat l r, dsq) else res1)
      in if dummy \<le> 0
         then (if r \<noteq> Null
               then (let rc' = rc\<lparr>rmin := (rmin rc)[nd := np ! nd]\<rparr>
                     in if hyperrect_dist_sq rc' p < snd res2
                        then kd_nearest_i r p res2 rc' else res2)
               else res2)
         else (if l \<noteq> Null
               then (let rc' = rc\<lparr>rmax := (rmax rc)[nd := np ! nd]\<rparr>
                     in if hyperrect_dist_sq rc' p < snd res2
                        then kd_nearest_i l p res2 rc' else res2)
               else res2))"

text \<open>\<^verbatim>\<open>kd_nearest\<close> returns the null pointer (\<open>None\<close>) for a tree without bounding box.\<close>

definition kd_nearest :: "'a kdtree \<Rightarrow> real list \<Rightarrow> 'a kdres option" where
  "kd_nearest kd p =
     (case trect kd of
        None \<Rightarrow> None
      | Some krect \<Rightarrow>
          (let rc = hyperrect_duplicate krect;
               result = troot kd;
               dsq = node_dist_sq (tdim kd) (pos result) p;
               (result', dsq') = kd_nearest_i (troot kd) p (result, dsq) rc
           in if result' \<noteq> Null
              then Some \<lparr>rlist = rlist_insert [] result' (- 1), rsize = 1\<rparr>
              else None))"

subsection \<open>Nearest neighbour search with rounded arithmetic\<close>

text \<open>
  The same search with the arithmetic of \<^verbatim>\<open>double\<close> made explicit. The exact result of every
  subtraction, multiplication and addition is passed through a rounding function; the three
  functions are kept apart so that a multiplication contracted with the following addition
  (no rounding of the product) is covered as well as a rounding after each operation, and
  exact arithmetic is the case of three identities. Comparisons, assignments and the
  minimum and maximum taken by \<^verbatim>\<open>hyperrect_extend\<close> do not round.
\<close>

record fl_arith =
  fl_sub :: "real \<Rightarrow> real"
  fl_mul :: "real \<Rightarrow> real"
  fl_add :: "real \<Rightarrow> real"

text \<open>
  \<^verbatim>\<open>dist_sq += SQ(node->pos[i] - pos[i])\<close>, where \<^verbatim>\<open>SQ(x)\<close> is \<^verbatim>\<open>((x)*(x))\<close>.
\<close>

definition node_dist_sq_fl :: "fl_arith \<Rightarrow> nat \<Rightarrow> real list \<Rightarrow> real list \<Rightarrow> real" where
  "node_dist_sq_fl fl dm ps p =
     fold (\<lambda>i d. fl_add fl (d + fl_mul fl (fl_sub fl (ps ! i - p ! i) * fl_sub fl (ps ! i - p ! i))))
          [0..<dm] 0"

definition hyperrect_dist_sq_fl :: "fl_arith \<Rightarrow> kdhyperrect \<Rightarrow> real list \<Rightarrow> real" where
  "hyperrect_dist_sq_fl fl rc p =
     fold (\<lambda>i result.
             if p ! i < rmin rc ! i
             then fl_add fl (result + fl_mul fl (fl_sub fl (rmin rc ! i - p ! i)
                                                  * fl_sub fl (rmin rc ! i - p ! i)))
             else if p ! i > rmax rc ! i
             then fl_add fl (result + fl_mul fl (fl_sub fl (rmax rc ! i - p ! i)
                                                  * fl_sub fl (rmax rc ! i - p ! i)))
             else result)
          [0..<rdim rc] 0"

fun kd_nearest_i_fl ::
  "fl_arith \<Rightarrow> 'a kdnode \<Rightarrow> real list \<Rightarrow> 'a kdnode \<times> real \<Rightarrow> kdhyperrect
     \<Rightarrow> 'a kdnode \<times> real"
where
  "kd_nearest_i_fl fl Null p res rc = res"
| "kd_nearest_i_fl fl (Node ps nd ndat l r) p res rc =
     (let dummy = fl_sub fl (p ! nd - ps ! nd);
          res1 = (if dummy \<le> 0
                  then (if l \<noteq> Null
                        then kd_nearest_i_fl fl l p res (rc\<lparr>rmax := (rmax rc)[nd := ps ! nd]\<rparr>)
                        else res)
                  else (if r \<noteq> Null
                        then kd_nearest_i_fl fl r p res (rc\<lparr>rmin := (rmin rc)[nd := ps ! nd]\<rparr>)
                        else res));
          dsq = node_dist_sq_fl fl (rdim rc) ps p;
          res2 = (if dsq < snd res1 then (Node ps nd ndat l r, dsq) else res1)
      in if dummy \<le> 0
         then (if r \<noteq> Null
               then (let rc' = rc\<lparr>rmin := (rmin rc)[nd := ps ! nd]\<rparr>
                     in if hyperrect_dist_sq_fl fl rc' p < snd res2
                        then kd_nearest_i_fl fl r p res2 rc' else res2)
               else res2)
         else (if l \<noteq> Null
               then (let rc' = rc\<lparr>rmax := (rmax rc)[nd := ps ! nd]\<rparr>
                     in if hyperrect_dist_sq_fl fl rc' p < snd res2
                        then kd_nearest_i_fl fl l p res2 rc' else res2)
               else res2))"

definition kd_nearest_fl :: "fl_arith \<Rightarrow> 'a kdtree \<Rightarrow> real list \<Rightarrow> 'a kdres option" where
  "kd_nearest_fl fl kd p =
     (case trect kd of
        None \<Rightarrow> None
      | Some krect \<Rightarrow>
          (let rc = hyperrect_duplicate krect;
               result = troot kd;
               dsq = node_dist_sq_fl fl (tdim kd) (pos result) p;
               (result', dsq') = kd_nearest_i_fl fl (troot kd) p (result, dsq) rc
           in if result' \<noteq> Null
              then Some \<lparr>rlist = rlist_insert [] result' (- 1), rsize = 1\<rparr>
              else None))"

section \<open>Peak utilities\<close>

subsection \<open>Peak status\<close>

text \<open>
  Modelled from the spec: the header \<^verbatim>\<open>multi_fit.h\<close>, which defines the status constants
  \<^verbatim>\<open>RUNNING\<close>, \<^verbatim>\<open>CONVERGED\<close> and \<^verbatim>\<open>ERROR\<close>, is not part of the sources at hand. The
  spec describes the status of a peak as a small closed enumeration of exactly these three
  values, so the \<^verbatim>\<open>int32_t\<close> status array is a list over this type.
\<close>

datatype status = RUNNING | CONVERGED | ERROR

subsection \<open>Trees over peak positions\<close>

definition createKDTree :: "real list \<Rightarrow> real list \<Rightarrow> nat \<Rightarrow> nat kdtree" where
  "createKDTree x y n = fold (\<lambda>i kd. kd_insert kd [x ! i, y ! i] i) [0..<n] (kd_create 2)"

text \<open>
  The payloads that a loop
  \<^verbatim>\<open>for(j=0;j<kd_res_size(set);j++){ k = (intptr_t)kd_res_item_data(set); ...; kd_res_next(set); }\<close>
  reads from a freshly rewound result set: those of the first \<^verbatim>\<open>size\<close> entries, in list order.
\<close>

definition res_data :: "'a kdres \<Rightarrow> 'a list" where
  "res_data st = map (\<lambda>rn. data (item rn)) (take (nat (rsize st)) (rlist st))"

text \<open>
  The loop that \<^verbatim>\<open>markDimmerPeaks\<close> and \<^verbatim>\<open>markLowSignificancePeaks\<close> both run after
  marking a peak: every \<^verbatim>\<open>CONVERGED\<close> peak returned by the range query with \<open>r_neighbors\<close>
  becomes \<^verbatim>\<open>RUNNING\<close>.
\<close>

definition neighbors_running :: "nat kdtree \<Rightarrow> real list \<Rightarrow> real \<Rightarrow> status list \<Rightarrow> status list" where
  "neighbors_running kd p r_neighbors st =
     fold (\<lambda>k s. if s ! k = CONVERGED then s[k := RUNNING] else s)
          (res_data (kd_nearest_range kd p r_neighbors)) st"

subsection \<open>markDimmerPeaks\<close>

text \<open>
  The body of the loop over \<open>i\<close>, on the pair of the status array and the counter
  \<^verbatim>\<open>removed\<close>. The inner loop with \<^verbatim>\<open>break\<close> only computes whether some returned peak is
  brighter.
\<close>

definition markDimmerPeaks_body ::
  "nat kdtree \<Rightarrow> real list \<Rightarrow> real list \<Rightarrow> real list \<Rightarrow> real \<Rightarrow> real \<Rightarrow> nat
     \<Rightarrow> status list \<times> int \<Rightarrow> status list \<times> int" where
  "markDimmerPeaks_body kd x y h r_removal r_neighbors i = (\<lambda>(st, removed).
     if st ! i = ERROR then (st, removed)
     else
       (let p = [x ! i, y ! i];
            set_r = kd_nearest_range kd p r_removal
        in if rsize set_r < 2 then (st, removed)
           else
             (let is_dimmer = list_ex (\<lambda>k. h ! k > h ! i) (res_data set_r)
              in if is_dimmer
                 then (neighbors_running kd p r_neighbors (st[i := ERROR]), removed + 1)
                 else (st, removed))))"

definition markDimmerPeaks ::
  "real list \<Rightarrow> real list \<Rightarrow> real list \<Rightarrow> status list \<Rightarrow> real \<Rightarrow> real \<Rightarrow> nat
     \<Rightarrow> int \<times> status list" where
  "markDimmerPeaks x y h st r_removal r_neighbors np =
     (let kd = createKDTree x y np;
          (st', removed) =
             fold (markDimmerPeaks_body kd x y h r_removal r_neighbors) [0..<np] (st, 0)
      in (removed, st'))"

subsection \<open>markLowSignificancePeaks\<close>



subsection \<open>nearestKDTree\<close>

text \<open>
  The scan over the result set of one query point \<open>(qx, qy)\<close>: \<^verbatim>\<open>kd_res_item\<close> copies the
  position of the current entry, the payload of the closest entry so far is kept in
  \<^verbatim>\<open>min_i\<close>.
\<close>

definition nearest_scan :: "real \<Rightarrow> real \<Rightarrow> nat res_node \<Rightarrow> int \<times> real \<Rightarrow> int \<times> real" where
  "nearest_scan qx qy rn = (\<lambda>(min_i, min_dd).
     let p = pos (item rn);
         dx = p ! 0 - qx;
         dy = p ! 1 - qy;
         dd = dx * dx + dy * dy
     in if dd < min_dd then (int (data (item rn)), dd) else (min_i, min_dd))"

definition nearestKDTree_body ::
  "nat kdtree \<Rightarrow> real list \<Rightarrow> real list \<Rightarrow> real \<Rightarrow> nat
     \<Rightarrow> real list \<times> int list \<Rightarrow> real list \<times> int list" where
  "nearestKDTree_body kd x y radius i = (\<lambda>(dist_out, index_out).
     let st = kd_nearest_range kd [x ! i, y ! i] radius;
         (min_i, min_dd) =
            fold (nearest_scan (x ! i) (y ! i)) (take (nat (rsize st)) (rlist st))
                 (- 1, radius * radius + 0.1)
     in if min_i \<ge> 0
        then (dist_out[i := sqrt min_dd], index_out[i := min_i])
        else (dist_out[i := - 1], index_out[i := - 1]))"

definition nearestKDTree ::
  "nat kdtree \<Rightarrow> real list \<Rightarrow> real list \<Rightarrow> real list \<Rightarrow> int list \<Rightarrow> real \<Rightarrow> nat
     \<Rightarrow> real list \<times> int list" where
  "nearestKDTree kd x y dist_out index_out radius n =
     fold (nearestKDTree_body kd x y radius) [0..<n] (dist_out, index_out)"

subsection \<open>runningIfHasNeighbors\<close>

definition runningIfHasNeighbors_body ::
  "nat kdtree \<Rightarrow> real list \<Rightarrow> real list \<Rightarrow> real \<Rightarrow> nat \<Rightarrow> status list \<Rightarrow> status list" where
  "runningIfHasNeighbors_body kd c_x c_y radius i st =
     (if st ! i = RUNNING \<or> st ! i = ERROR then st
      else
        (let st_n = kd_nearest_range kd [c_x ! i, c_y ! i] radius
         in if rsize st_n > 0 then st[i := RUNNING] else st))"

definition runningIfHasNeighbors ::
  "real list \<Rightarrow> real list \<Rightarrow> real list \<Rightarrow> real list \<Rightarrow> status list \<Rightarrow> real \<Rightarrow> nat \<Rightarrow> nat
     \<Rightarrow> status list" where
  "runningIfHasNeighbors c_x c_y n_x n_y st radius nc nn =
     (let kd = createKDTree n_x n_y nn
      in fold (runningIfHasNeighbors_body kd c_x c_y radius) [0..<nc] st)"

section \<open>Local maxima\<close>

record flmData =
  margin :: int
  n_peaks :: int
  z_range :: int
  xsize :: int
  ysize :: int
  zsize :: int
  radius :: real
  threshold :: real
  z_values :: "real list"
  taken :: "int list list"
  images :: "real list list"

text \<open>The conversion of a \<^verbatim>\<open>double\<close> to an \<^verbatim>\<open>int\<close> in C drops the fractional part.\<close>

definition c_trunc :: "real \<Rightarrow> int" where
  "c_trunc v = (if v \<ge> 0 then \<lfloor>v\<rfloor> else \<lceil>v\<rceil>)"

definition pixel :: "flmData \<Rightarrow> int \<Rightarrow> int \<Rightarrow> int \<Rightarrow> real" where
  "pixel f zi yi xi = images f ! nat zi ! nat (yi * xsize f + xi)"

definition is_taken :: "flmData \<Rightarrow> int \<Rightarrow> int \<Rightarrow> int \<Rightarrow> int" where
  "is_taken f zi yi xi = taken f ! nat zi ! nat (yi * xsize f + xi)"

text \<open>
  \<^verbatim>\<open>isLocalMaxima\<close> returns 0 at the first pixel of the search cylinder that disqualifies
  the candidate and 1 when there is none: the model is the truth value of "there is none",
  with the three loops in the order of the code.
\<close>

definition isLocalMaxima ::
  "flmData \<Rightarrow> real \<Rightarrow> int \<Rightarrow> int \<Rightarrow> int \<Rightarrow> int \<Rightarrow> int \<Rightarrow> int \<Rightarrow> int \<Rightarrow> int \<Rightarrow> bool" where
  "isLocalMaxima f cur sz ez sy cy ey sx cx ex =
     (let rr = c_trunc (radius f * radius f)
      in list_all (\<lambda>zi.
           list_all (\<lambda>yi.
             let dy = (yi - cy) * (yi - cy)
             in list_all (\<lambda>xi.
                  let dx = (xi - cx) * (xi - cx)
                  in if dx + dy \<le> rr
                     then (if yi \<le> cy \<and> xi \<le> cx
                           then \<not> pixel f zi yi xi > cur
                           else \<not> pixel f zi yi xi \<ge> cur)
                     else True)
                [sx..ex])
           [sy..ey])
         [sz..ez])"

text \<open>
  The state of \<^verbatim>\<open>findLocalMaxima\<close> while it scans: the data (whose \<^verbatim>\<open>taken\<close> mask it
  updates), the counter \<^verbatim>\<open>np\<close>, the entries written so far to the output arrays
  \<^verbatim>\<open>z\<close>, \<^verbatim>\<open>y\<close>, \<^verbatim>\<open>x\<close>, \<^verbatim>\<open>h\<close> (entry \<open>j\<close> of the list is what index \<open>j\<close> of the four arrays
  holds), and whether the early \<^verbatim>\<open>return\<close> has been taken.
\<close>

record flm_run =
  fd :: flmData
  np :: int
  written :: "(real \<times> real \<times> real \<times> real) list"
  returned :: bool

definition flm_pixel :: "int \<Rightarrow> int \<Rightarrow> int \<Rightarrow> int \<Rightarrow> int \<Rightarrow> int \<Rightarrow> int \<Rightarrow> flm_run \<Rightarrow> flm_run" where
  "flm_pixel zi sz ez yi sy ey xi s =
     (if returned s then s
      else let f = fd s in
        if pixel f zi yi xi > threshold f then
          if is_taken f zi yi xi < 1 then
            (let sx0 = c_trunc (of_int xi - of_int \<lceil>radius f\<rceil>);
                 sx = (if sx0 < 0 then 0 else sx0);
                 ex0 = c_trunc (of_int xi + of_int \<lceil>radius f\<rceil>);
                 ex = (if ex0 \<ge> xsize f then xsize f - 1 else ex0);
                 cur = pixel f zi yi xi;
                 s1 = (if isLocalMaxima f cur sz ez sy yi ey sx xi ex
                       then s\<lparr>fd := f\<lparr>taken := (taken f)[nat zi :=
                                        (taken f ! nat zi)[nat (yi * xsize f + xi) :=
                                           is_taken f zi yi xi + 1]]\<rparr>,
                              written := written s @ [(z_values f ! nat zi, of_int yi, of_int xi, cur)],
                              np := np s + 1\<rparr>
                       else s)
             in if np s1 \<ge> n_peaks f then s1\<lparr>returned := True\<rparr> else s1)
          else s
        else s)"

definition flm_row :: "int \<Rightarrow> int \<Rightarrow> int \<Rightarrow> int \<Rightarrow> flm_run \<Rightarrow> flm_run" where
  "flm_row zi sz ez yi s =
     (let f = fd s;
          sy0 = c_trunc (of_int yi - radius f);
          sy = (if sy0 < 0 then 0 else sy0);
          ey0 = c_trunc (of_int yi + radius f);
          ey = (if ey0 \<ge> ysize f then ysize f - 1 else ey0)
      in fold (flm_pixel zi sz ez yi sy ey) [margin f..xsize f - margin f - 1] s)"

definition flm_plane :: "int \<Rightarrow> flm_run \<Rightarrow> flm_run" where
  "flm_plane zi s =
     (let f = fd s;
          sz0 = zi - z_range f;
          sz = (if sz0 < 0 then 0 else sz0);
          ez0 = zi + z_range f;
          ez = (if ez0 \<ge> zsize f then zsize f - 1 else ez0)
      in fold (flm_row zi sz ez) [margin f..ysize f - margin f - 1] s)"

definition findLocalMaxima :: "flmData \<Rightarrow> flmData \<times> (real \<times> real \<times> real \<times> real) list" where
  "findLocalMaxima f =
     (let s = fold flm_plane [0..zsize f - 1] \<lparr>fd = f, np = 0, written = [], returned = False\<rparr>
      in if returned s then (fd s, written s)
         else ((fd s)\<lparr>n_peaks := np s\<rparr>, written s))"

section \<open>Notions used in the statements and proofs\<close>

subsection \<open>Trees built by insertion\<close>

text \<open>
  The tree obtained from the empty tree of dimension \<open>k\<close> by inserting the points of a
  list, first point first, each with its payload.
\<close>

definition kd_build :: "nat \<Rightarrow> (real list \<times> 'a) list \<Rightarrow> 'a kdtree" where
  "kd_build k pts = fold (\<lambda>(p, d) kd. kd_insert kd p d) pts (kd_create k)"

text \<open>The nodes of a tree (as pointers: each with its subtrees) and its (position, payload) pairs.\<close>

fun kd_nodes :: "'a kdnode \<Rightarrow> 'a kdnode set" where
  "kd_nodes Null = {}"
| "kd_nodes (Node ps nd d l r) = insert (Node ps nd d l r) (kd_nodes l \<union> kd_nodes r)"

fun kd_entries :: "'a kdnode \<Rightarrow> (real list \<times> 'a) set" where
  "kd_entries Null = {}"
| "kd_entries (Node ps nd d l r) = insert (ps, d) (kd_entries l \<union> kd_entries r)"

text \<open>
  The partition that \<^verbatim>\<open>insert_rec\<close> maintains: on the axis of a node, the points of its left
  subtree are strictly smaller than the point of the node, those of its right subtree are
  not.
\<close>

fun kd_inv :: "nat \<Rightarrow> 'a kdnode \<Rightarrow> bool" where
  "kd_inv dm Null = True"
| "kd_inv dm (Node ps nd d l r) =
     (nd < dm \<and> (\<forall>e \<in> kd_entries l. fst e ! nd < ps ! nd)
             \<and> (\<forall>e \<in> kd_entries r. ps ! nd \<le> fst e ! nd)
             \<and> kd_inv dm l \<and> kd_inv dm r)"

text \<open>A point lies in a hyperrectangle, on the first \<open>dm\<close> axes.\<close>

definition in_rect :: "nat \<Rightarrow> kdhyperrect \<Rightarrow> real list \<Rightarrow> bool" where
  "in_rect dm rc q = (\<forall>i<dm. rmin rc ! i \<le> q ! i \<and> q ! i \<le> rmax rc ! i)"

text \<open>
  What a call of \<^verbatim>\<open>kd_nearest_i\<close> on a subtree with entries \<open>E\<close> and nodes \<open>N\<close> does to the
  best candidate \<open>res\<close>, for the computed distance \<open>D\<close> to the query point: the new distance
  is no larger, it is a lower bound of the distances of all of \<open>E\<close>, and the candidate is
  either unchanged or a node of \<open>N\<close> at that distance.
\<close>

definition nearest_ok ::
  "(real list \<Rightarrow> real) \<Rightarrow> (real list \<times> 'a) set \<Rightarrow> 'a kdnode set
     \<Rightarrow> 'a kdnode \<times> real \<Rightarrow> 'a kdnode \<times> real \<Rightarrow> bool" where
  "nearest_ok D E N res res' =
     (snd res' \<le> snd res
      \<and> (\<forall>e \<in> E. snd res' \<le> D (fst e))
      \<and> (res' = res \<or> (fst res' \<in> N \<and> snd res' = D (pos (fst res')))))"

subsection \<open>Rounding\<close>

text \<open>
  What is asked of a rounding function: it is monotone, it leaves zero alone, and it leaves
  its own results alone. Rounding to nearest (ties to even) of binary64 is such a function
  as long as no result overflows, and so is every other IEEE rounding direction.
\<close>

definition rounding :: "(real \<Rightarrow> real) \<Rightarrow> bool" where
  "rounding rnd = (mono rnd \<and> rnd 0 = 0 \<and> (\<forall>v. rnd (rnd v) = rnd v))"

definition fl_rounding :: "fl_arith \<Rightarrow> bool" where
  "fl_rounding fl = (rounding (fl_sub fl) \<and> rounding (fl_mul fl) \<and> rounding (fl_add fl))"

text \<open>Exact arithmetic, and a toy arithmetic that rounds to the nearest multiple of 1/4.\<close>

definition fl_exact :: fl_arith where
  "fl_exact = \<lparr>fl_sub = (\<lambda>v. v), fl_mul = (\<lambda>v. v), fl_add = (\<lambda>v. v)\<rparr>"

definition to_quarter :: "real \<Rightarrow> real" where
  "to_quarter v = of_int \<lfloor>4 * v + 1 / 2\<rfloor> / 4"

definition fl_quarter :: fl_arith where
  "fl_quarter = \<lparr>fl_sub = to_quarter, fl_mul = to_quarter, fl_add = to_quarter\<rparr>"

text \<open>
  The nearest neighbour as the specification words it: a point at minimal distance from
  \<open>q\<close>, and among several such points the one inserted first.
\<close>

fun spec_nearest :: "nat \<Rightarrow> (real list \<times> 'a) list \<Rightarrow> real list \<Rightarrow> (real list \<times> 'a) option" where
  "spec_nearest k [] q = None"
| "spec_nearest k (e # es) q =
     (case spec_nearest k es q of
        None \<Rightarrow> Some e
      | Some b \<Rightarrow> if node_dist_sq k (fst e) q \<le> node_dist_sq k (fst b) q then Some e else Some b)"

subsection \<open>The two suppression loops\<close>

text \<open>
  The test of \<^verbatim>\<open>markDimmerPeaks\<close> for peak \<open>i\<close>: its range query with \<open>r_removal\<close> returned
  at least two entries and one of them is brighter. It reads positions and heights only.
\<close>

definition brighter_neighbor ::
  "nat kdtree \<Rightarrow> real list \<Rightarrow> real list \<Rightarrow> real list \<Rightarrow> real \<Rightarrow> nat \<Rightarrow> bool" where
  "brighter_neighbor kd x y h r_removal i =
     (let set_r = kd_nearest_range kd [x ! i, y ! i] r_removal
      in \<not> rsize set_r < 2 \<and> list_ex (\<lambda>k. h ! k > h ! i) (res_data set_r))"

text \<open>
  The common shape of the loop bodies of \<^verbatim>\<open>markDimmerPeaks\<close> and
  \<^verbatim>\<open>markLowSignificancePeaks\<close>, with the test for peak \<open>i\<close> as the parameter \<open>D\<close>, and the
  invariant of the loop after \<open>m\<close> rounds from the status array \<open>st\<close>.
\<close>

definition suppress_body ::
  "(nat \<Rightarrow> bool) \<Rightarrow> nat kdtree \<Rightarrow> real list \<Rightarrow> real list \<Rightarrow> real \<Rightarrow> nat
     \<Rightarrow> status list \<times> int \<Rightarrow> status list \<times> int" where
  "suppress_body D kd x y r_neighbors i = (\<lambda>(st, removed).
     if st ! i = ERROR then (st, removed)
     else if D i then (neighbors_running kd [x ! i, y ! i] r_neighbors (st[i := ERROR]), removed + 1)
     else (st, removed))"

definition suppress_inv ::
  "(nat \<Rightarrow> bool) \<Rightarrow> status list \<Rightarrow> nat \<Rightarrow> status list \<times> int \<Rightarrow> bool" where
  "suppress_inv D st m sr =
     (length (fst sr) = length st
      \<and> (\<forall>j<length st. fst sr ! j = ERROR \<longleftrightarrow> st ! j = ERROR \<or> (j < m \<and> D j))
      \<and> (\<forall>j<length st. fst sr ! j \<noteq> st ! j \<longrightarrow>
            (st ! j = CONVERGED \<and> fst sr ! j = RUNNING) \<or> fst sr ! j = ERROR)
      \<and> snd sr = int (card {j. j < m \<and> st ! j \<noteq> ERROR \<and> D j}))"

subsection \<open>The scan for local maxima\<close>

text \<open>
  The invariant of the scan of \<^verbatim>\<open>findLocalMaxima\<close> for a maximum \<open>N\<close>: the counter is the
  number of entries written, the maximum is unchanged, and the counter is below the maximum
  until the early return is taken, when it is equal to it.
\<close>

definition flm_inv :: "int \<Rightarrow> flm_run \<Rightarrow> bool" where
  "flm_inv N s = (np s = int (length (written s)) \<and> n_peaks (fd s) = N
                  \<and> (if returned s then np s = N else np s < N))"

subsection \<open>The range query of the specification\<close>

text \<open>
  The range query as the specification words it: the inserted points whose squared
  distance to \<open>q\<close> is at most \<open>r\<^sup>2\<close>.
\<close>

definition spec_range :: "nat \<Rightarrow> (real list \<times> 'a) list \<Rightarrow> real list \<Rightarrow> real \<Rightarrow> (real list \<times> 'a) list" where
  "spec_range k pts q r = filter (\<lambda>e. node_dist_sq k (fst e) q \<le> SQ r) pts"

section \<open>Lemmas\<close>

text \<open>
  The lemmas on \<^verbatim>\<open>find_nearest\<close> and the range query are about the search in exact
  arithmetic; those on \<open>kd_nearest_i_fl\<close> and \<open>kd_nearest_fl\<close> hold for every rounding.
\<close>

lemma fold_add_sum:
  "fold (\<lambda>i d. d + f i) xs (a::real) = a + sum_list (map f xs)"
  by (induction xs arbitrary: a) (auto simp: algebra_simps)

lemma node_dist_sq_sum: "node_dist_sq dm a b = (\<Sum>i\<leftarrow>[0..<dm]. SQ (a ! i - b ! i))"
  by (simp add: node_dist_sq_def fold_add_sum)

lemma SQ_nonneg: "0 \<le> SQ v"
  by (simp add: SQ_def)

lemma node_dist_sq_nonneg: "0 \<le> node_dist_sq dm a b"
  unfolding node_dist_sq_sum by (rule sum_list_nonneg) (auto simp: SQ_nonneg)

lemma node_dist_sq_axis:
  assumes "i < dm"
  shows "SQ (a ! i - b ! i) \<le> node_dist_sq dm a b"
proof -
  have "i \<in> set [0..<dm]" using assms by simp
  then have "SQ (a ! i - b ! i) \<le> (\<Sum>j\<leftarrow>[0..<dm]. SQ (a ! j - b ! j))"
    by (intro member_le_sum_list) (auto simp: SQ_nonneg)
  then show ?thesis by (simp add: node_dist_sq_sum)
qed

lemma SQ_less_abs: "SQ d < SQ r \<Longrightarrow> 0 \<le> r \<Longrightarrow> \<bar>d\<bar> < r"
proof (rule ccontr)
  assume lt: "SQ d < SQ r" and r: "0 \<le> r" and n: "\<not> \<bar>d\<bar> < r"
  then have "r \<le> \<bar>d\<bar>" by simp
  then have "r * r \<le> \<bar>d\<bar> * \<bar>d\<bar>" using r by (intro mult_mono) auto
  then have "SQ r \<le> SQ d" by (simp add: SQ_def)
  then show False using lt by simp
qed

lemma kd_nodes_entries: "n \<in> kd_nodes t \<Longrightarrow> (pos n, data n) \<in> kd_entries t"
  by (induction t) auto

lemma kd_entries_nodes: "e \<in> kd_entries t \<Longrightarrow> \<exists>n \<in> kd_nodes t. pos n = fst e \<and> data n = snd e"
  by (induction t) auto

lemma kd_nodes_not_Null: "n \<in> kd_nodes t \<Longrightarrow> n \<noteq> Null"
  by (induction t) auto

lemma length_rlist_skip: "length (rlist_skip lst rn) = Suc (length lst)"
  by (induction lst) auto

lemma set_rlist_skip: "set (rlist_skip lst rn) = insert rn (set lst)"
  by (induction lst) auto

lemma length_rlist_insert: "length (rlist_insert lst it d) = Suc (length lst)"
  by (simp add: rlist_insert_def Let_def length_rlist_skip)

lemma set_rlist_insert: "set (rlist_insert lst it d) = insert \<lparr>item = it, dist_sq = d\<rparr> (set lst)"
  by (simp add: rlist_insert_def Let_def set_rlist_skip)

lemma find_nearest_count:
  "find_nearest t p r lst ord dm = (c, lst') \<Longrightarrow> 0 \<le> c \<and> length lst' = length lst + nat c"
proof (induction t arbitrary: lst c lst')
  case Null
  then show ?case by simp
next
  case (Node ps nd d l rt)
  then show ?case
    by (fastforce simp: Let_def length_rlist_insert split: prod.splits if_splits)
qed

lemma find_nearest_NodeE:
  assumes "find_nearest (Node ps nd d l rt) p r lst ord dm = (c, lst')"
  obtains l1 c2 l2 c3 where
    "l1 = (if node_dist_sq dm ps p \<le> SQ r
           then rlist_insert lst (Node ps nd d l rt) (if ord then node_dist_sq dm ps p else - 1)
           else lst)"
    "(if p ! nd - ps ! nd \<le> 0 then find_nearest l p r l1 ord dm
      else find_nearest rt p r l1 ord dm) = (c2, l2)"
    "\<bar>p ! nd - ps ! nd\<bar> < r \<Longrightarrow>
       (if p ! nd - ps ! nd \<le> 0 then find_nearest rt p r l2 ord dm
        else find_nearest l p r l2 ord dm) = (c3, lst')"
    "\<not> \<bar>p ! nd - ps ! nd\<bar> < r \<Longrightarrow> lst' = l2"
proof -
  let ?me = "Node ps nd d l rt"
  let ?dx = "p ! nd - ps ! nd"
  define l1 where "l1 = (if node_dist_sq dm ps p \<le> SQ r
           then rlist_insert lst ?me (if ord then node_dist_sq dm ps p else - 1)
           else lst)"
  define a1 :: int where "a1 = (if node_dist_sq dm ps p \<le> SQ r then 1 else 0)"
  have s1: "(if node_dist_sq dm ps p \<le> SQ r
              then (1::int, rlist_insert lst ?me (if ord then node_dist_sq dm ps p else - 1))
              else (0, lst)) = (a1, l1)"
    by (simp add: l1_def a1_def)
  obtain c2 l2 where s2: "(if ?dx \<le> 0 then find_nearest l p r l1 ord dm
                         else find_nearest rt p r l1 ord dm) = (c2, l2)"
    by (metis surj_pair)
  obtain c3 l3 where s3: "(if ?dx \<le> 0 then find_nearest rt p r l2 ord dm
                         else find_nearest l p r l2 ord dm) = (c3, l3)"
    by (metis surj_pair)
  have c2nn: "0 \<le> c2"
  proof (cases "?dx \<le> 0")
    case True
    then show ?thesis using s2 find_nearest_count[of l p r l1 ord dm c2 l2] by simp
  next
    case False
    then show ?thesis using s2 find_nearest_count[of rt p r l1 ord dm c2 l2] by simp
  qed
  have "find_nearest ?me p r lst ord dm =
          (if c2 \<ge> 0 \<and> \<bar>?dx\<bar> < r then (a1 + c2 + c3, l3) else (a1 + c2, l2))"
    unfolding find_nearest.simps Let_def s1 prod.case s2 s3 ..
  then have res: "lst' = (if \<bar>?dx\<bar> < r then l3 else l2)"
    using assms c2nn by (simp split: if_splits)
  show thesis
    by (rule that[of l1 c2 l2 c3]) (use l1_def s2 s3 res in \<open>simp_all\<close>)
qed

lemma subset_chain3:
  "A \<subseteq> B \<union> {x} \<Longrightarrow> C \<subseteq> A \<union> L \<union> R \<Longrightarrow> D \<subseteq> C \<union> L \<union> R \<Longrightarrow> D \<subseteq> B \<union> insert x (L \<union> R)"
  by blast

lemma find_nearest_items:
  "find_nearest t p r lst ord dm = (c, lst') \<Longrightarrow> item ` set lst' \<subseteq> item ` set lst \<union> kd_nodes t"
proof (induction t arbitrary: lst c lst')
  case Null
  then show ?case by simp
next
  case (Node ps nd d l rt)
  from Node.prems obtain l1 c2 l2 c3 where
    l1: "l1 = (if node_dist_sq dm ps p \<le> SQ r
           then rlist_insert lst (Node ps nd d l rt) (if ord then node_dist_sq dm ps p else - 1)
           else lst)" and
    s2: "(if p ! nd - ps ! nd \<le> 0 then find_nearest l p r l1 ord dm
      else find_nearest rt p r l1 ord dm) = (c2, l2)" and
    s3: "\<bar>p ! nd - ps ! nd\<bar> < r \<Longrightarrow>
       (if p ! nd - ps ! nd \<le> 0 then find_nearest rt p r l2 ord dm
        else find_nearest l p r l2 ord dm) = (c3, lst')" and
    s4: "\<not> \<bar>p ! nd - ps ! nd\<bar> < r \<Longrightarrow> lst' = l2"
    by (rule find_nearest_NodeE) blast
  have a: "item ` set l1 \<subseteq> item ` set lst \<union> {Node ps nd d l rt}"
    unfolding l1 by (auto simp: set_rlist_insert)
  have b: "item ` set l2 \<subseteq> item ` set l1 \<union> kd_nodes l \<union> kd_nodes rt"
    using s2 Node.IH(1)[of l1 c2 l2] Node.IH(2)[of l1 c2 l2] by (auto split: if_splits)
  have c: "item ` set lst' \<subseteq> item ` set l2 \<union> kd_nodes l \<union> kd_nodes rt"
  proof (cases "\<bar>p ! nd - ps ! nd\<bar> < r")
    case True
    then show ?thesis
      using s3 Node.IH(1)[of l2 c3 lst'] Node.IH(2)[of l2 c3 lst'] by (auto split: if_splits)
  next
    case False
    then show ?thesis using s4 by auto
  qed
  show ?case using subset_chain3[OF a b c] by simp
qed

lemma find_nearest_keeps:
  "find_nearest t p r lst ord dm = (c, lst') \<Longrightarrow> set lst \<subseteq> set lst'"
proof (induction t arbitrary: lst c lst')
  case Null
  then show ?case by simp
next
  case (Node ps nd d l rt)
  from Node.prems obtain l1 c2 l2 c3 where
    l1: "l1 = (if node_dist_sq dm ps p \<le> SQ r
           then rlist_insert lst (Node ps nd d l rt) (if ord then node_dist_sq dm ps p else - 1)
           else lst)" and
    s2: "(if p ! nd - ps ! nd \<le> 0 then find_nearest l p r l1 ord dm
      else find_nearest rt p r l1 ord dm) = (c2, l2)" and
    s3: "\<bar>p ! nd - ps ! nd\<bar> < r \<Longrightarrow>
       (if p ! nd - ps ! nd \<le> 0 then find_nearest rt p r l2 ord dm
        else find_nearest l p r l2 ord dm) = (c3, lst')" and
    s4: "\<not> \<bar>p ! nd - ps ! nd\<bar> < r \<Longrightarrow> lst' = l2"
    by (rule find_nearest_NodeE) blast
  have a: "set lst \<subseteq> set l1"
    unfolding l1 by (auto simp: set_rlist_insert)
  have b: "set l1 \<subseteq> set l2"
    using s2 Node.IH(1)[of l1 c2 l2] Node.IH(2)[of l1 c2 l2] by (auto split: if_splits)
  have c: "set l2 \<subseteq> set lst'"
  proof (cases "\<bar>p ! nd - ps ! nd\<bar> < r")
    case True
    then show ?thesis
      using s3 Node.IH(1)[of l2 c3 lst'] Node.IH(2)[of l2 c3 lst'] by (auto split: if_splits)
  next
    case False
    then show ?thesis using s4 by auto
  qed
  show ?case using a b c by auto
qed

lemma find_nearest_within:
  "find_nearest t p r lst ord dm = (c, lst') \<Longrightarrow>
     \<forall>e \<in> set lst'. e \<in> set lst \<or> node_dist_sq dm (pos (item e)) p \<le> SQ r"
proof (induction t arbitrary: lst c lst')
  case Null
  then show ?case by simp
next
  case (Node ps nd d l rt)
  let ?W = "\<lambda>e. node_dist_sq dm (pos (item e)) p \<le> SQ r"
  from Node.prems obtain l1 c2 l2 c3 where
    l1: "l1 = (if node_dist_sq dm ps p \<le> SQ r
           then rlist_insert lst (Node ps nd d l rt) (if ord then node_dist_sq dm ps p else - 1)
           else lst)" and
    s2: "(if p ! nd - ps ! nd \<le> 0 then find_nearest l p r l1 ord dm
      else find_nearest rt p r l1 ord dm) = (c2, l2)" and
    s3: "\<bar>p ! nd - ps ! nd\<bar> < r \<Longrightarrow>
       (if p ! nd - ps ! nd \<le> 0 then find_nearest rt p r l2 ord dm
        else find_nearest l p r l2 ord dm) = (c3, lst')" and
    s4: "\<not> \<bar>p ! nd - ps ! nd\<bar> < r \<Longrightarrow> lst' = l2"
    by (rule find_nearest_NodeE) blast
  have a: "\<forall>e \<in> set l1. e \<in> set lst \<or> ?W e"
    unfolding l1 by (auto simp: set_rlist_insert)
  have b: "\<forall>e \<in> set l2. e \<in> set l1 \<or> ?W e"
    using s2 Node.IH(1)[of l1 c2 l2] Node.IH(2)[of l1 c2 l2] by (auto split: if_splits)
  have c: "\<forall>e \<in> set lst'. e \<in> set l2 \<or> ?W e"
  proof (cases "\<bar>p ! nd - ps ! nd\<bar> < r")
    case True
    then show ?thesis
      using s3 Node.IH(1)[of l2 c3 lst'] Node.IH(2)[of l2 c3 lst'] by (auto split: if_splits)
  next
    case False
    then show ?thesis using s4 by auto
  qed
  show ?case using a b c by blast
qed

lemma find_nearest_complete:
  assumes "kd_inv dm t" and "n \<in> kd_nodes t" and "node_dist_sq dm (pos n) p < SQ r" and "0 \<le> r"
    and "find_nearest t p r lst ord dm = (c, lst')"
  shows "n \<in> item ` set lst'"
  using assms
proof (induction t arbitrary: lst c lst')
  case Null
  then show ?case by simp
next
  case (Node ps nd d l rt)
  let ?me = "Node ps nd d l rt"
  let ?dx = "p ! nd - ps ! nd"
  from Node.prems(5) obtain l1 c2 l2 c3 where
    l1: "l1 = (if node_dist_sq dm ps p \<le> SQ r
           then rlist_insert lst (Node ps nd d l rt) (if ord then node_dist_sq dm ps p else - 1)
           else lst)" and
    s2: "(if ?dx \<le> 0 then find_nearest l p r l1 ord dm
      else find_nearest rt p r l1 ord dm) = (c2, l2)" and
    s3: "\<bar>?dx\<bar> < r \<Longrightarrow>
       (if ?dx \<le> 0 then find_nearest rt p r l2 ord dm
        else find_nearest l p r l2 ord dm) = (c3, lst')" and
    s4: "\<not> \<bar>?dx\<bar> < r \<Longrightarrow> lst' = l2"
    by (rule find_nearest_NodeE) blast
  have l12: "set l1 \<subseteq> set l2"
  proof (cases "?dx \<le> 0")
    case True
    then have "find_nearest l p r l1 ord dm = (c2, l2)" using s2 by simp
    then show ?thesis by (rule find_nearest_keeps)
  next
    case False
    then have "find_nearest rt p r l1 ord dm = (c2, l2)" using s2 by simp
    then show ?thesis by (rule find_nearest_keeps)
  qed
  have l2res: "set l2 \<subseteq> set lst'"
  proof (cases "\<bar>?dx\<bar> < r")
    case near: True
    show ?thesis
    proof (cases "?dx \<le> 0")
      case True
      then have "find_nearest rt p r l2 ord dm = (c3, lst')" using s3[OF near] by simp
      then show ?thesis by (rule find_nearest_keeps)
    next
      case False
      then have "find_nearest l p r l2 ord dm = (c3, lst')" using s3[OF near] by simp
      then show ?thesis by (rule find_nearest_keeps)
    qed
  next
    case False
    then show ?thesis using s4 by simp
  qed
  have ndlt: "nd < dm" using Node.prems(1) by simp
  have "SQ (pos n ! nd - p ! nd) \<le> node_dist_sq dm (pos n) p"
    by (rule node_dist_sq_axis[OF ndlt])
  then have "SQ (pos n ! nd - p ! nd) < SQ r" using Node.prems(3) by linarith
  then have axis: "\<bar>pos n ! nd - p ! nd\<bar> < r" using Node.prems(4) by (rule SQ_less_abs)
  have lbound: "\<forall>e \<in> kd_entries l. fst e ! nd < ps ! nd" using Node.prems(1) by simp
  have rbound: "\<forall>e \<in> kd_entries rt. ps ! nd \<le> fst e ! nd" using Node.prems(1) by simp
  consider (self) "n = ?me" | (inl) "n \<in> kd_nodes l" | (inr) "n \<in> kd_nodes rt"
    using Node.prems(2) by auto
  then show ?case
  proof cases
    case self
    then have "node_dist_sq dm ps p \<le> SQ r" using Node.prems(3) by simp
    then have "\<lparr>item = ?me, dist_sq = (if ord then node_dist_sq dm ps p else - 1)\<rparr> \<in> set l1"
      unfolding l1 by (simp add: set_rlist_insert)
    then have "\<lparr>item = ?me, dist_sq = (if ord then node_dist_sq dm ps p else - 1)\<rparr> \<in> set lst'"
      using l12 l2res by blast
    then have "item \<lparr>item = ?me, dist_sq = (if ord then node_dist_sq dm ps p else - 1)\<rparr> \<in> item ` set lst'"
      by (rule imageI)
    then show ?thesis using self by simp
  next
    case inl
    have invl: "kd_inv dm l" using Node.prems(1) by simp
    show ?thesis
    proof (cases "?dx \<le> 0")
      case True
      then have "find_nearest l p r l1 ord dm = (c2, l2)" using s2 by simp
      from Node.IH(1)[OF invl inl Node.prems(3) Node.prems(4) this]
      show ?thesis using l2res by blast
    next
      case False
      have "pos n ! nd < ps ! nd"
        using lbound kd_nodes_entries[OF inl] by fastforce
      then have near: "\<bar>?dx\<bar> < r" using False axis by linarith
      then have "find_nearest l p r l2 ord dm = (c3, lst')" using s3 False by simp
      from Node.IH(1)[OF invl inl Node.prems(3) Node.prems(4) this]
      show ?thesis .
    qed
  next
    case inr
    have invr: "kd_inv dm rt" using Node.prems(1) by simp
    show ?thesis
    proof (cases "?dx \<le> 0")
      case False
      then have "find_nearest rt p r l1 ord dm = (c2, l2)" using s2 by simp
      from Node.IH(2)[OF invr inr Node.prems(3) Node.prems(4) this]
      show ?thesis using l2res by blast
    next
      case True
      have "ps ! nd \<le> pos n ! nd"
        using rbound kd_nodes_entries[OF inr] by fastforce
      then have near: "\<bar>?dx\<bar> < r" using True axis by linarith
      then have "find_nearest rt p r l2 ord dm = (c3, lst')" using s3 True by simp
      from Node.IH(2)[OF invr inr Node.prems(3) Node.prems(4) this]
      show ?thesis .
    qed
  qed
qed

lemma kd_entries_insert_rec:
  "kd_entries (insert_rec t p d dr dm) = insert (take dm p, d) (kd_entries t)"
  by (induction t arbitrary: dr) (auto simp: Let_def)

lemma kd_inv_insert_rec:
  "kd_inv dm t \<Longrightarrow> dr < dm \<Longrightarrow> kd_inv dm (insert_rec t p d dr dm)"
proof (induction t arbitrary: dr)
  case Null
  then show ?case by simp
next
  case (Node ps nd dat l rt)
  have nd: "nd < dm" using Node.prems(1) by simp
  then have nxt: "(nd + 1) mod dm < dm" by simp
  show ?case
  proof (cases "p ! nd < ps ! nd")
    case True
    have "kd_inv dm (insert_rec l p d ((nd + 1) mod dm) dm)"
      using Node.IH(1)[OF _ nxt] Node.prems(1) by simp
    then show ?thesis using True Node.prems(1) nd
      by (simp add: Let_def kd_entries_insert_rec)
  next
    case False
    have "kd_inv dm (insert_rec rt p d ((nd + 1) mod dm) dm)"
      using Node.IH(2)[OF _ nxt] Node.prems(1) by simp
    then show ?thesis using False Node.prems(1) nd
      by (simp add: Let_def kd_entries_insert_rec)
  qed
qed

lemma insert_rec_not_Null: "insert_rec t p d dr dm \<noteq> Null"
  by (cases t) (auto simp: Let_def)

lemma createKDTree_Suc:
  "createKDTree x y (Suc n) = kd_insert (createKDTree x y n) [x ! n, y ! n] n"
  by (simp add: createKDTree_def)

lemma tdim_createKDTree: "tdim (createKDTree x y n) = 2"
  by (induction n) (simp_all add: createKDTree_Suc kd_insert_def, simp add: createKDTree_def kd_create_def)

lemma kd_entries_createKDTree:
  "kd_entries (troot (createKDTree x y n)) = (\<lambda>i. ([x ! i, y ! i], i)) ` {0..<n}"
proof (induction n)
  case 0
  then show ?case by (simp add: createKDTree_def kd_create_def)
next
  case (Suc n)
  have "{0..<Suc n} = insert n {0..<n}" by auto
  then show ?case using Suc
    by (simp add: createKDTree_Suc kd_insert_def kd_entries_insert_rec tdim_createKDTree)
qed

lemma kd_inv_createKDTree: "kd_inv 2 (troot (createKDTree x y n))"
proof (induction n)
  case 0
  then show ?case by (simp add: createKDTree_def kd_create_def)
next
  case (Suc n)
  then show ?case
    by (simp add: createKDTree_Suc kd_insert_def tdim_createKDTree kd_inv_insert_rec)
qed

lemma node_dist_sq_2: "node_dist_sq 2 [a, b] [c, d] = SQ (a - c) + SQ (b - d)"
proof -
  have "[0..<2] = [0, Suc 0]" by (simp add: upt_rec)
  then show ?thesis by (simp add: node_dist_sq_def)
qed

lemma rsize_kd_nearest_range:
  "rsize (kd_nearest_range kd p r) = int (length (rlist (kd_nearest_range kd p r)))"
proof -
  obtain c lst where fn: "find_nearest (troot kd) p r [] False (tdim kd) = (c, lst)"
    by (metis surj_pair)
  from find_nearest_count[OF fn] show ?thesis
    by (simp add: kd_nearest_range_def fn)
qed

lemma res_data_eq: "res_data (kd_nearest_range kd p r) = map (\<lambda>rn. data (item rn)) (rlist (kd_nearest_range kd p r))"
  by (simp add: res_data_def rsize_kd_nearest_range)

lemma items_kd_nearest_range:
  "item ` set (rlist (kd_nearest_range kd p r)) \<subseteq> kd_nodes (troot kd)"
proof -
  obtain c lst where fn: "find_nearest (troot kd) p r [] False (tdim kd) = (c, lst)"
    by (metis surj_pair)
  from find_nearest_items[OF fn] show ?thesis
    by (simp add: kd_nearest_range_def fn)
qed

lemma res_data_entries:
  assumes "k \<in> set (res_data (kd_nearest_range kd p r))"
  shows "\<exists>q. (q, k) \<in> kd_entries (troot kd)"
proof -
  from assms obtain rn where rn: "rn \<in> set (rlist (kd_nearest_range kd p r))" and k: "k = data (item rn)"
    by (auto simp: res_data_eq)
  then have "item rn \<in> kd_nodes (troot kd)" using items_kd_nearest_range by blast
  from kd_nodes_entries[OF this] show ?thesis using k by blast
qed

lemma res_data_createKDTree_less:
  "k \<in> set (res_data (kd_nearest_range (createKDTree x y n) p r)) \<Longrightarrow> k < n"
  using res_data_entries[of k "createKDTree x y n" p r]
  by (auto simp: kd_entries_createKDTree)

lemma markDimmerPeaks_body_suppress:
  "markDimmerPeaks_body kd x y h r_removal r_neighbors i
     = suppress_body (brighter_neighbor kd x y h r_removal) kd x y r_neighbors i"
  by (rule ext) (simp add: markDimmerPeaks_body_def suppress_body_def brighter_neighbor_def Let_def split: prod.splits)


lemma running_fold_length:
  "length (fold (\<lambda>k s. if s ! k = CONVERGED then s[k := RUNNING] else s) ks st) = length st"
  by (induction ks arbitrary: st) auto

lemma running_fold_nth:
  "j < length st \<Longrightarrow>
   fold (\<lambda>k s. if s ! k = CONVERGED then s[k := RUNNING] else s) ks st ! j
     = (if j \<in> set ks \<and> st ! j = CONVERGED then RUNNING else st ! j)"
proof (induction ks arbitrary: st)
  case Nil
  then show ?case by simp
next
  case (Cons k ks)
  let ?s1 = "if st ! k = CONVERGED then st[k := RUNNING] else st"
  have len: "j < length ?s1" using Cons.prems by simp
  have s1j: "?s1 ! j = (if j = k \<and> st ! k = CONVERGED then RUNNING else st ! j)"
    using Cons.prems by (auto simp: nth_list_update)
  show ?case
    unfolding fold_Cons comp_def Cons.IH[OF len] s1j by auto
qed

lemma length_neighbors_running: "length (neighbors_running kd p r st) = length st"
  by (simp add: neighbors_running_def running_fold_length)

lemma neighbors_running_nth:
  "j < length st \<Longrightarrow> neighbors_running kd p r st ! j
     = (if j \<in> set (res_data (kd_nearest_range kd p r)) \<and> st ! j = CONVERGED then RUNNING else st ! j)"
  by (simp add: neighbors_running_def running_fold_nth)

lemma suppress_body_skip:
  "st ! i = ERROR \<or> \<not> D i \<Longrightarrow> suppress_body D kd x y rn i (st, removed) = (st, removed)"
  by (auto simp: suppress_body_def)

lemma suppress_body_mark:
  "st ! i \<noteq> ERROR \<Longrightarrow> D i \<Longrightarrow>
   suppress_body D kd x y rn i (st, removed)
     = (neighbors_running kd [x ! i, y ! i] rn (st[i := ERROR]), removed + 1)"
  by (auto simp: suppress_body_def)

lemma suppress_fold:
  assumes "m \<le> length st"
  shows "suppress_inv D st m (fold (suppress_body D kd x y rn) [0..<m] (st, 0))"
  using assms
proof (induction m)
  case 0
  then show ?case by (simp add: suppress_inv_def)
next
  case (Suc m)
  then have mlt: "m < length st" by simp
  obtain s r where f: "fold (suppress_body D kd x y rn) [0..<m] (st, 0) = (s, r)"
    by (metis surj_pair)
  have "suppress_inv D st m (s, r)" using Suc.IH mlt f by simp
  then have I: "length s = length st
      \<and> (\<forall>j<length st. s ! j = ERROR \<longleftrightarrow> st ! j = ERROR \<or> (j < m \<and> D j))
      \<and> (\<forall>j<length st. s ! j \<noteq> st ! j \<longrightarrow> (st ! j = CONVERGED \<and> s ! j = RUNNING) \<or> s ! j = ERROR)
      \<and> r = int (card {j. j < m \<and> st ! j \<noteq> ERROR \<and> D j})"
    unfolding suppress_inv_def fst_conv snd_conv .
  have len: "length s = length st" using I by (rule conjunct1)
  have inv1: "\<forall>j<length st. s ! j = ERROR \<longleftrightarrow> st ! j = ERROR \<or> (j < m \<and> D j)"
    using I by blast
  have inv2: "\<forall>j<length st. s ! j \<noteq> st ! j \<longrightarrow> (st ! j = CONVERGED \<and> s ! j = RUNNING) \<or> s ! j = ERROR"
    using I by blast
  have r: "r = int (card {j. j < m \<and> st ! j \<noteq> ERROR \<and> D j})"
    using I by blast
  have step: "fold (suppress_body D kd x y rn) [0..<Suc m] (st, 0) = suppress_body D kd x y rn m (s, r)"
    by (simp add: f)
  have sm: "s ! m = ERROR \<longleftrightarrow> st ! m = ERROR" using inv1 mlt by simp
  show ?case
  proof (cases "s ! m = ERROR \<or> \<not> D m")
    case True
    have eq: "{j. j < Suc m \<and> st ! j \<noteq> ERROR \<and> D j} = {j. j < m \<and> st ! j \<noteq> ERROR \<and> D j}"
      using True sm less_Suc_eq by auto
    have a: "\<forall>j<length st. s ! j = ERROR \<longleftrightarrow> st ! j = ERROR \<or> (j < Suc m \<and> D j)"
      using inv1 True sm less_Suc_eq by auto
    have c: "r = int (card {j. j < Suc m \<and> st ! j \<noteq> ERROR \<and> D j})"
      unfolding eq by (rule r)
    have sk: "suppress_body D kd x y rn m (s, r) = (s, r)"
      using True by (rule suppress_body_skip[where D = D and i = m and st = s])
    show ?thesis
      unfolding step sk suppress_inv_def fst_conv snd_conv
      by (intro conjI len a inv2 c)
  next
    case False
    then have mark: "s ! m \<noteq> ERROR" "D m" by simp_all
    let ?s' = "neighbors_running kd [x ! m, y ! m] rn (s[m := ERROR])"
    have len': "length ?s' = length st" by (simp add: length_neighbors_running len)
    have nth': "\<And>j. j < length st \<Longrightarrow> ?s' ! j =
        (if j \<in> set (res_data (kd_nearest_range kd [x ! m, y ! m] rn)) \<and> s[m := ERROR] ! j = CONVERGED
         then RUNNING else s[m := ERROR] ! j)"
      by (rule neighbors_running_nth) (simp add: len)
    have a: "\<forall>j<length st. ?s' ! j = ERROR \<longleftrightarrow> st ! j = ERROR \<or> (j < Suc m \<and> D j)"
    proof (intro allI impI)
      fix j assume j: "j < length st"
      show "?s' ! j = ERROR \<longleftrightarrow> st ! j = ERROR \<or> (j < Suc m \<and> D j)"
      proof -
        have upd: "s[m := ERROR] ! j = (if j = m then ERROR else s ! j)"
          using j len by (simp add: nth_list_update)
        show ?thesis
          using nth'[OF j] inv1[rule_format, OF j] mark(2)
          unfolding upd by (auto simp: less_Suc_eq)
      qed
    qed
    have b: "\<forall>j<length st. ?s' ! j \<noteq> st ! j \<longrightarrow> (st ! j = CONVERGED \<and> ?s' ! j = RUNNING) \<or> ?s' ! j = ERROR"
    proof (intro allI impI)
      fix j assume j: "j < length st" and ne: "?s' ! j \<noteq> st ! j"
      show "(st ! j = CONVERGED \<and> ?s' ! j = RUNNING) \<or> ?s' ! j = ERROR"
      proof -
        have upd: "s[m := ERROR] ! j = (if j = m then ERROR else s ! j)"
          using j len by (simp add: nth_list_update)
        show ?thesis
          using nth'[OF j] inv2[rule_format, OF j] ne
          unfolding upd by (cases "j = m"; cases "st ! j = CONVERGED"; simp split: if_splits)
      qed
    qed
    have "{j. j < Suc m \<and> st ! j \<noteq> ERROR \<and> D j} = insert m {j. j < m \<and> st ! j \<noteq> ERROR \<and> D j}"
      using mark sm less_Suc_eq by auto
    then have c: "r + 1 = int (card {j. j < Suc m \<and> st ! j \<noteq> ERROR \<and> D j})"
      using r by simp
    have mk: "suppress_body D kd x y rn m (s, r) = (?s', r + 1)"
      using mark by (rule suppress_body_mark[where D = D and i = m and st = s])
    show ?thesis
      unfolding step mk suppress_inv_def fst_conv snd_conv
      by (intro conjI len' a b c)
  qed
qed

lemma kd_build_snoc: "kd_build k (pts @ [(p, d)]) = kd_insert (kd_build k pts) p d"
  by (simp add: kd_build_def)

lemma tdim_kd_insert: "tdim (kd_insert kd p d) = tdim kd"
  by (simp add: kd_insert_def)

lemma tdim_kd_build: "tdim (kd_build k pts) = k"
  by (induction pts rule: rev_induct) (auto simp: kd_build_snoc tdim_kd_insert, simp add: kd_build_def kd_create_def)

lemma kd_entries_kd_build:
  "kd_entries (troot (kd_build k pts)) = (\<lambda>(p, d). (take k p, d)) ` set pts"
proof (induction pts rule: rev_induct)
  case Nil
  then show ?case by (simp add: kd_build_def kd_create_def)
next
  case (snoc a pts)
  obtain p d where a: "a = (p, d)" by (cases a)
  show ?case unfolding a kd_build_snoc
    using snoc by (simp add: kd_insert_def kd_entries_insert_rec tdim_kd_build)
qed

lemma kd_inv_kd_build: "0 < k \<Longrightarrow> kd_inv k (troot (kd_build k pts))"
proof (induction pts rule: rev_induct)
  case Nil
  then show ?case by (simp add: kd_build_def kd_create_def)
next
  case (snoc a pts)
  obtain p d where a: "a = (p, d)" by (cases a)
  show ?case unfolding a kd_build_snoc
    using snoc by (simp add: kd_insert_def tdim_kd_build kd_inv_insert_rec)
qed

lemma troot_kd_build_Null: "troot (kd_build k pts) = Null \<longleftrightarrow> pts = []"
proof (cases pts rule: rev_cases)
  case Nil
  then show ?thesis by (simp add: kd_build_def kd_create_def)
next
  case (snoc ps a)
  obtain p d where a: "a = (p, d)" by (cases a)
  show ?thesis unfolding snoc a kd_build_snoc
    by (simp add: kd_insert_def insert_rec_not_Null)
qed

lemma trect_kd_build_None: "trect (kd_build k pts) = None \<longleftrightarrow> pts = []"
proof (cases pts rule: rev_cases)
  case Nil
  then show ?thesis by (simp add: kd_build_def kd_create_def)
next
  case (snoc ps a)
  obtain p d where a: "a = (p, d)" by (cases a)
  show ?thesis unfolding snoc a kd_build_snoc
    by (simp add: kd_insert_def)
qed

lemma hyperrect_extend_axis_props:
  "rdim (hyperrect_extend_axis p i rc) = rdim rc"
  "length (rmin (hyperrect_extend_axis p i rc)) = length (rmin rc)"
  "length (rmax (hyperrect_extend_axis p i rc)) = length (rmax rc)"
  by (simp_all add: hyperrect_extend_axis_def Let_def)

lemma hyperrect_extend_axis_mono:
  assumes "j < length (rmin rc)" "j < length (rmax rc)"
  shows "rmin (hyperrect_extend_axis p i rc) ! j \<le> rmin rc ! j"
    and "rmax rc ! j \<le> rmax (hyperrect_extend_axis p i rc) ! j"
  using assms by (cases "i = j"; simp add: hyperrect_extend_axis_def Let_def)+

lemma hyperrect_extend_axis_holds:
  assumes "i < length (rmin rc)" "i < length (rmax rc)"
  shows "rmin (hyperrect_extend_axis p i rc) ! i \<le> p ! i"
    and "p ! i \<le> rmax (hyperrect_extend_axis p i rc) ! i"
  using assms by (auto simp: hyperrect_extend_axis_def Let_def nth_list_update)

lemma fold_extend_props:
  "rdim (fold (hyperrect_extend_axis p) xs rc) = rdim rc"
  "length (rmin (fold (hyperrect_extend_axis p) xs rc)) = length (rmin rc)"
  "length (rmax (fold (hyperrect_extend_axis p) xs rc)) = length (rmax rc)"
  by (induction xs arbitrary: rc) (simp_all add: hyperrect_extend_axis_props)

lemma fold_extend_mono:
  assumes "j < length (rmin rc)" "j < length (rmax rc)"
  shows "rmin (fold (hyperrect_extend_axis p) xs rc) ! j \<le> rmin rc ! j
       \<and> rmax rc ! j \<le> rmax (fold (hyperrect_extend_axis p) xs rc) ! j"
  using assms
proof (induction xs arbitrary: rc)
  case Nil
  then show ?case by simp
next
  case (Cons i xs)
  let ?rc1 = "hyperrect_extend_axis p i rc"
  have l: "j < length (rmin ?rc1)" "j < length (rmax ?rc1)"
    using Cons.prems by (simp_all add: hyperrect_extend_axis_props)
  from Cons.IH[OF l] hyperrect_extend_axis_mono[OF Cons.prems, of p i]
  show ?case by simp
qed

lemma fold_extend_holds:
  assumes "i \<in> set xs" "i < length (rmin rc)" "i < length (rmax rc)"
  shows "rmin (fold (hyperrect_extend_axis p) xs rc) ! i \<le> p ! i
       \<and> p ! i \<le> rmax (fold (hyperrect_extend_axis p) xs rc) ! i"
  using assms
proof (induction xs arbitrary: rc)
  case Nil
  then show ?case by simp
next
  case (Cons k xs)
  let ?rc1 = "hyperrect_extend_axis p k rc"
  have l: "i < length (rmin ?rc1)" "i < length (rmax ?rc1)"
    using Cons.prems by (simp_all add: hyperrect_extend_axis_props)
  show ?case
  proof (cases "i = k")
    case True
    from fold_extend_mono[OF l, of p xs] hyperrect_extend_axis_holds[OF Cons.prems(2,3), of p]
    show ?thesis using True by simp
  next
    case False
    then have "i \<in> set xs" using Cons.prems(1) by simp
    from Cons.IH[OF this l] show ?thesis by simp
  qed
qed

lemma in_rect_extend_self:
  assumes "rdim rc = dm" "length (rmin rc) = dm" "length (rmax rc) = dm"
  shows "in_rect dm (hyperrect_extend rc p) p"
  unfolding in_rect_def hyperrect_extend_def
  using fold_extend_holds[of _ "[0..<rdim rc]" rc p] assms by simp

lemma in_rect_extend_keeps:
  assumes "rdim rc = dm" "length (rmin rc) = dm" "length (rmax rc) = dm" and q: "in_rect dm rc q"
  shows "in_rect dm (hyperrect_extend rc p) q"
  unfolding in_rect_def hyperrect_extend_def
proof (intro allI impI)
  fix i assume i: "i < dm"
  from fold_extend_mono[of i rc p "[0..<rdim rc]"] assms i
  have "rmin (fold (hyperrect_extend_axis p) [0..<rdim rc] rc) ! i \<le> rmin rc ! i"
       "rmax rc ! i \<le> rmax (fold (hyperrect_extend_axis p) [0..<rdim rc] rc) ! i" by simp_all
  moreover have "rmin rc ! i \<le> q ! i" "q ! i \<le> rmax rc ! i" using q i by (simp_all add: in_rect_def)
  ultimately show "rmin (fold (hyperrect_extend_axis p) [0..<rdim rc] rc) ! i \<le> q ! i \<and>
       q ! i \<le> rmax (fold (hyperrect_extend_axis p) [0..<rdim rc] rc) ! i" by linarith
qed

lemma hyperrect_extend_shape:
  "rdim (hyperrect_extend rc p) = rdim rc"
  "length (rmin (hyperrect_extend rc p)) = length (rmin rc)"
  "length (rmax (hyperrect_extend rc p)) = length (rmax rc)"
  by (simp_all add: hyperrect_extend_def fold_extend_props)

lemma in_rect_take: "in_rect dm rc (take dm q) = in_rect dm rc q"
  by (simp add: in_rect_def)

lemma trect_kd_build:
  assumes "\<forall>(p, d) \<in> set pts. k \<le> length p" and "pts \<noteq> []"
  shows "\<exists>rc. trect (kd_build k pts) = Some rc \<and> rdim rc = k \<and> length (rmin rc) = k
             \<and> length (rmax rc) = k \<and> (\<forall>(p, d) \<in> set pts. in_rect k rc p)"
  using assms
proof (induction pts rule: rev_induct)
  case Nil
  then show ?case by simp
next
  case (snoc a pts)
  obtain p d where a: "a = (p, d)" by (cases a)
  have lp: "k \<le> length p" using snoc.prems(1) a by simp
  have rest: "\<forall>(p, d) \<in> set pts. k \<le> length p" using snoc.prems(1) by simp
  show ?case
  proof (cases "pts = []")
    case True
    have "trect (kd_build k [(p, d)]) = Some (hyperrect_create k p p)"
      by (simp add: kd_build_def kd_create_def kd_insert_def)
    moreover have "in_rect k (hyperrect_create k p p) p"
      by (simp add: in_rect_def hyperrect_create_def)
    ultimately show ?thesis using True a lp
      by (simp add: hyperrect_create_def)
  next
    case False
    from snoc.IH[OF rest False] obtain rc where
      rc: "trect (kd_build k pts) = Some rc" "rdim rc = k" "length (rmin rc) = k" "length (rmax rc) = k"
        "\<forall>(p, d) \<in> set pts. in_rect k rc p" by blast
    have t: "trect (kd_build k (pts @ [a])) = Some (hyperrect_extend rc p)"
      unfolding a kd_build_snoc by (simp add: kd_insert_def rc(1))
    have "\<forall>(q, e) \<in> set (pts @ [a]). in_rect k (hyperrect_extend rc p) q"
      using in_rect_extend_self[OF rc(2,3,4), of p] in_rect_extend_keeps[OF rc(2,3,4), of _ p] rc(5) a
      by auto
    then show ?thesis using t rc(2,3,4) by (simp add: hyperrect_extend_shape)
  qed
qed

lemma kd_nearest_i_Node:
  "kd_nearest_i (Node ps nd dat l r) p res rc =
     (let lrc = rc\<lparr>rmax := (rmax rc)[nd := ps ! nd]\<rparr>;
          rrc = rc\<lparr>rmin := (rmin rc)[nd := ps ! nd]\<rparr>;
          near = (if p ! nd - ps ! nd \<le> 0 then l else r);
          nrc = (if p ! nd - ps ! nd \<le> 0 then lrc else rrc);
          far = (if p ! nd - ps ! nd \<le> 0 then r else l);
          frc = (if p ! nd - ps ! nd \<le> 0 then rrc else lrc);
          res1 = kd_nearest_i near p res nrc;
          res2 = (if node_dist_sq (rdim rc) ps p < snd res1
                  then (Node ps nd dat l r, node_dist_sq (rdim rc) ps p) else res1)
      in if hyperrect_dist_sq frc p < snd res2 then kd_nearest_i far p res2 frc else res2)"
  by (cases l; cases r; simp add: Let_def del: kd_nearest_i.simps(2) add: kd_nearest_i.simps(2)[of ps nd dat])

lemma in_rect_slice_max:
  assumes "in_rect dm rc q" and "q ! nd \<le> v" and "length (rmax rc) = dm"
  shows "in_rect dm (rc\<lparr>rmax := (rmax rc)[nd := v]\<rparr>) q"
  unfolding in_rect_def
proof (intro allI impI)
  fix i assume i: "i < dm"
  then have "rmin rc ! i \<le> q ! i" "q ! i \<le> rmax rc ! i" using assms(1) by (simp_all add: in_rect_def)
  then show "rmin (rc\<lparr>rmax := (rmax rc)[nd := v]\<rparr>) ! i \<le> q ! i
           \<and> q ! i \<le> rmax (rc\<lparr>rmax := (rmax rc)[nd := v]\<rparr>) ! i"
    using assms(2,3) i by (cases "i = nd") simp_all
qed

lemma in_rect_slice_min:
  assumes "in_rect dm rc q" and "v \<le> q ! nd" and "length (rmin rc) = dm"
  shows "in_rect dm (rc\<lparr>rmin := (rmin rc)[nd := v]\<rparr>) q"
  unfolding in_rect_def
proof (intro allI impI)
  fix i assume i: "i < dm"
  then have "rmin rc ! i \<le> q ! i" "q ! i \<le> rmax rc ! i" using assms(1) by (simp_all add: in_rect_def)
  then show "rmin (rc\<lparr>rmin := (rmin rc)[nd := v]\<rparr>) ! i \<le> q ! i
           \<and> q ! i \<le> rmax (rc\<lparr>rmin := (rmin rc)[nd := v]\<rparr>) ! i"
    using assms(2,3) i by (cases "i = nd") simp_all
qed

lemma hyperrect_duplicate_id:
  "length (rmin rc) = rdim rc \<Longrightarrow> length (rmax rc) = rdim rc \<Longrightarrow> hyperrect_duplicate rc = rc"
  by (simp add: hyperrect_duplicate_def hyperrect_create_def)

lemma rounding_mono: "rounding rnd \<Longrightarrow> a \<le> b \<Longrightarrow> rnd a \<le> rnd b"
  by (simp add: rounding_def mono_def)

lemma rounding_zero: "rounding rnd \<Longrightarrow> rnd 0 = 0"
  by (simp add: rounding_def)

lemma rounding_idem: "rounding rnd \<Longrightarrow> rnd (rnd v) = rnd v"
  by (simp add: rounding_def)

lemma rounding_id: "rounding (\<lambda>v. v)"
  by (simp add: rounding_def mono_def)

lemma fl_rounding_exact: "fl_rounding fl_exact"
  by (simp add: fl_rounding_def fl_exact_def rounding_id)

lemma rounding_to_quarter: "rounding to_quarter"
proof -
  have "mono to_quarter"
    unfolding mono_def to_quarter_def
    by (intro allI impI divide_right_mono) (simp_all add: floor_mono)
  moreover have "to_quarter 0 = 0" by (simp add: to_quarter_def)
  moreover have "\<And>v. to_quarter (to_quarter v) = to_quarter v"
  proof -
    fix v :: real
    have "\<lfloor>of_int \<lfloor>4 * v + 1 / 2\<rfloor> + (1 / 2 :: real)\<rfloor> = \<lfloor>4 * v + 1 / 2\<rfloor>"
      by linarith
    then show "to_quarter (to_quarter v) = to_quarter v" by (simp add: to_quarter_def)
  qed
  ultimately show ?thesis by (simp add: rounding_def)
qed

lemma fl_rounding_quarter: "fl_rounding fl_quarter"
  by (simp add: fl_rounding_def fl_quarter_def rounding_to_quarter)

lemma square_fl_mono:
  assumes rs: "rounding rs" and rm: "rounding rm"
    and ab: "(0 \<le> a \<and> a \<le> b) \<or> (b \<le> a \<and> a \<le> 0)"
  shows "rm (rs a * rs a) \<le> rm (rs b * rs b)"
proof -
  from ab have "rs a * rs a \<le> rs b * rs b"
  proof
    assume "0 \<le> a \<and> a \<le> b"
    then have "0 \<le> rs a" "rs a \<le> rs b"
      using rounding_mono[OF rs, of 0 a] rounding_mono[OF rs, of a b] rounding_zero[OF rs] by simp_all
    then show ?thesis by (intro mult_mono) auto
  next
    assume "b \<le> a \<and> a \<le> 0"
    then have "rs a \<le> 0" "rs b \<le> rs a"
      using rounding_mono[OF rs, of a 0] rounding_mono[OF rs, of b a] rounding_zero[OF rs] by simp_all
    then have "(- rs a) * (- rs a) \<le> (- rs b) * (- rs b)" by (intro mult_mono) auto
    then show ?thesis by simp
  qed
  then show ?thesis by (rule rounding_mono[OF rm])
qed

lemma square_fl_nonneg:
  assumes rm: "rounding rm"
  shows "0 \<le> rm (v * v)"
  using rounding_mono[OF rm, of 0 "v * v"] rounding_zero[OF rm] by simp

lemma add_fl_grows:
  assumes ra: "rounding ra" and "ra d = d" and "0 \<le> t"
  shows "d \<le> ra (d + t)"
  using rounding_mono[OF ra, of d "d + t"] assms(2,3) by simp

lemma fold_fl_le:
  assumes rs: "rounding rs" and rm: "rounding rm" and ra: "rounding ra"
    and box: "\<And>i. i \<in> set xs \<Longrightarrow> lo i \<le> q i \<and> q i \<le> hi i"
    and "h \<le> d" and "ra d = d"
  shows "fold (\<lambda>i result.
             if p i < lo i
             then ra (result + rm (rs (lo i - p i) * rs (lo i - p i)))
             else if p i > hi i
             then ra (result + rm (rs (hi i - p i) * rs (hi i - p i)))
             else result) xs h
       \<le> fold (\<lambda>i d. ra (d + rm (rs (q i - p i) * rs (q i - p i)))) xs d"
  using box assms(5,6)
proof (induction xs arbitrary: h d)
  case Nil
  then show ?case by simp
next
  case (Cons i xs)
  have b: "lo i \<le> q i" "q i \<le> hi i" using Cons.prems(1)[of i] by simp_all
  let ?h' = "if p i < lo i
             then ra (h + rm (rs (lo i - p i) * rs (lo i - p i)))
             else if p i > hi i
             then ra (h + rm (rs (hi i - p i) * rs (hi i - p i)))
             else h"
  let ?d' = "ra (d + rm (rs (q i - p i) * rs (q i - p i)))"
  have le: "?h' \<le> ?d'"
  proof (cases "p i < lo i")
    case True
    have "rm (rs (lo i - p i) * rs (lo i - p i)) \<le> rm (rs (q i - p i) * rs (q i - p i))"
      using True b by (intro square_fl_mono[OF rs rm]) simp
    then have "h + rm (rs (lo i - p i) * rs (lo i - p i))
             \<le> d + rm (rs (q i - p i) * rs (q i - p i))" using Cons.prems(2) by simp
    then show ?thesis using True rounding_mono[OF ra] by simp
  next
    case False
    show ?thesis
    proof (cases "p i > hi i")
      case True
      have "rm (rs (hi i - p i) * rs (hi i - p i)) \<le> rm (rs (q i - p i) * rs (q i - p i))"
        using True b by (intro square_fl_mono[OF rs rm]) simp
      then have "h + rm (rs (hi i - p i) * rs (hi i - p i))
               \<le> d + rm (rs (q i - p i) * rs (q i - p i))" using Cons.prems(2) by simp
      then show ?thesis using True False rounding_mono[OF ra] by simp
    next
      case F2: False
      have "d \<le> ?d'"
        by (rule add_fl_grows[OF ra Cons.prems(3) square_fl_nonneg[OF rm]])
      then show ?thesis using False F2 Cons.prems(2) by simp
    qed
  qed
  have id: "ra ?d' = ?d'" by (rule rounding_idem[OF ra])
  have "fold (\<lambda>i result.
             if p i < lo i
             then ra (result + rm (rs (lo i - p i) * rs (lo i - p i)))
             else if p i > hi i
             then ra (result + rm (rs (hi i - p i) * rs (hi i - p i)))
             else result) xs ?h'
       \<le> fold (\<lambda>i d. ra (d + rm (rs (q i - p i) * rs (q i - p i)))) xs ?d'"
    by (rule Cons.IH[OF _ le id]) (simp add: Cons.prems(1))
  then show ?case by simp
qed

lemma hyperrect_dist_sq_fl_le:
  assumes fl: "fl_rounding fl" and "rdim rc = dm" and "in_rect dm rc q"
  shows "hyperrect_dist_sq_fl fl rc p \<le> node_dist_sq_fl fl dm q p"
proof -
  have rs: "rounding (fl_sub fl)" and rm: "rounding (fl_mul fl)" and ra: "rounding (fl_add fl)"
    using fl by (simp_all add: fl_rounding_def)
  have box: "\<And>i. i \<in> set [0..<dm] \<Longrightarrow> rmin rc ! i \<le> q ! i \<and> q ! i \<le> rmax rc ! i"
    using assms(3) by (simp add: in_rect_def)
  show ?thesis
    unfolding hyperrect_dist_sq_fl_def node_dist_sq_fl_def assms(2)
    by (rule fold_fl_le[OF rs rm ra box, where p = "\<lambda>i. p ! i"])
       (simp_all add: rounding_zero[OF ra])
qed

lemma node_dist_sq_fl_exact: "node_dist_sq_fl fl_exact dm ps p = node_dist_sq dm ps p"
  by (simp add: node_dist_sq_fl_def node_dist_sq_def fl_exact_def SQ_def)

lemma hyperrect_dist_sq_fl_exact: "hyperrect_dist_sq_fl fl_exact rc p = hyperrect_dist_sq rc p"
  by (simp add: hyperrect_dist_sq_fl_def hyperrect_dist_sq_def fl_exact_def SQ_def cong: if_cong)

lemma kd_nearest_i_fl_exact: "kd_nearest_i_fl fl_exact t p res rc = kd_nearest_i t p res rc"
proof (induction t arbitrary: res rc)
  case Null
  then show ?case by simp
next
  case (Node ps nd dat l r)
  have s: "fl_sub fl_exact = (\<lambda>v. v)" by (simp add: fl_exact_def)
  show ?case
    by (simp add: Let_def Node.IH node_dist_sq_fl_exact hyperrect_dist_sq_fl_exact s)
qed

lemma kd_nearest_fl_exact: "kd_nearest_fl fl_exact kd p = kd_nearest kd p"
  by (simp add: kd_nearest_fl_def kd_nearest_def kd_nearest_i_fl_exact node_dist_sq_fl_exact
        Let_def split: option.splits)

lemma kd_nearest_i_fl_Node:
  "kd_nearest_i_fl fl (Node ps nd dat l r) p res rc =
     (let lrc = rc\<lparr>rmax := (rmax rc)[nd := ps ! nd]\<rparr>;
          rrc = rc\<lparr>rmin := (rmin rc)[nd := ps ! nd]\<rparr>;
          near = (if fl_sub fl (p ! nd - ps ! nd) \<le> 0 then l else r);
          nrc = (if fl_sub fl (p ! nd - ps ! nd) \<le> 0 then lrc else rrc);
          far = (if fl_sub fl (p ! nd - ps ! nd) \<le> 0 then r else l);
          frc = (if fl_sub fl (p ! nd - ps ! nd) \<le> 0 then rrc else lrc);
          res1 = kd_nearest_i_fl fl near p res nrc;
          res2 = (if node_dist_sq_fl fl (rdim rc) ps p < snd res1
                  then (Node ps nd dat l r, node_dist_sq_fl fl (rdim rc) ps p) else res1)
      in if hyperrect_dist_sq_fl fl frc p < snd res2 then kd_nearest_i_fl fl far p res2 frc else res2)"
  by (cases l; cases r; simp add: Let_def del: kd_nearest_i_fl.simps(2) add: kd_nearest_i_fl.simps(2)[of fl ps nd dat])

lemma nearest_ok_step:
  assumes n: "nearest_ok D En Nn res res1"
    and r2: "res2 = (if dsq < snd res1 then (me, dsq) else res1)"
    and dsq: "dsq = D (pos me)"
    and f: "nearest_ok D Ef Nf res2 resf"
    and hdq: "\<forall>e \<in> Ef. hq \<le> D (fst e)"
    and r3: "res3 = (if hq < snd res2 then resf else res2)"
  shows "nearest_ok D (insert (pos me, dat) (En \<union> Ef)) (insert me (Nn \<union> Nf)) res res3"
proof -
  have a1: "snd res1 \<le> snd res" and
       b1: "\<forall>e \<in> En. snd res1 \<le> D (fst e)" and
       c1: "res1 = res \<or> (fst res1 \<in> Nn \<and> snd res1 = D (pos (fst res1)))"
    using n unfolding nearest_ok_def by blast+
  have a2: "snd res2 \<le> snd res1" and s2: "snd res2 \<le> dsq"
    unfolding r2 by auto
  have c2: "res2 = res \<or> (fst res2 \<in> insert me Nn \<and> snd res2 = D (pos (fst res2)))"
    unfolding r2 using c1 dsq by auto
  have af: "snd resf \<le> snd res2" and
       bf: "\<forall>e \<in> Ef. snd resf \<le> D (fst e)" and
       cf: "resf = res2 \<or> (fst resf \<in> Nf \<and> snd resf = D (pos (fst resf)))"
    using f unfolding nearest_ok_def by blast+
  have a3: "snd res3 \<le> snd res2" unfolding r3 using af by simp
  have b3: "\<forall>e \<in> Ef. snd res3 \<le> D (fst e)"
  proof
    fix e assume e: "e \<in> Ef"
    show "snd res3 \<le> D (fst e)"
    proof (cases "hq < snd res2")
      case True
      then show ?thesis unfolding r3 using bf e by simp
    next
      case False
      then have "snd res2 \<le> D (fst e)" using hdq e by fastforce
      then show ?thesis unfolding r3 using False by simp
    qed
  qed
  have c3: "res3 = res \<or> (fst res3 \<in> insert me (Nn \<union> Nf) \<and> snd res3 = D (pos (fst res3)))"
    unfolding r3 using c2 cf by auto
  have A: "snd res3 \<le> snd res" using a3 a2 a1 by linarith
  have B: "\<forall>e \<in> insert (pos me, dat) (En \<union> Ef). snd res3 \<le> D (fst e)"
  proof
    fix e assume "e \<in> insert (pos me, dat) (En \<union> Ef)"
    then consider "e = (pos me, dat)" | "e \<in> En" | "e \<in> Ef" by auto
    then show "snd res3 \<le> D (fst e)"
    proof cases
      case 1
      then show ?thesis using a3 s2 dsq by simp
    next
      case 2
      then show ?thesis using b1 a2 a3 by fastforce
    next
      case 3
      then show ?thesis using b3 by simp
    qed
  qed
  show ?thesis unfolding nearest_ok_def using A B c3 by blast
qed

lemma kd_nearest_i_fl_ok:
  assumes fl: "fl_rounding fl"
    and "kd_inv dm t" and "rdim rc = dm" and "length (rmin rc) = dm" and "length (rmax rc) = dm"
    and "\<forall>e \<in> kd_entries t. in_rect dm rc (fst e)"
  shows "nearest_ok (\<lambda>v. node_dist_sq_fl fl dm v p) (kd_entries t) (kd_nodes t) res
           (kd_nearest_i_fl fl t p res rc)"
  using assms(2-)
proof (induction t arbitrary: res rc)
  case Null
  then show ?case by (simp add: nearest_ok_def)
next
  case (Node ps nd dat l r)
  let ?D = "\<lambda>v. node_dist_sq_fl fl dm v p"
  let ?me = "Node ps nd dat l r"
  let ?lrc = "rc\<lparr>rmax := (rmax rc)[nd := ps ! nd]\<rparr>"
  let ?rrc = "rc\<lparr>rmin := (rmin rc)[nd := ps ! nd]\<rparr>"
  have invl: "kd_inv dm l" and invr: "kd_inv dm r" using Node.prems(1) by simp_all
  have lb: "\<forall>e \<in> kd_entries l. fst e ! nd < ps ! nd" using Node.prems(1) by simp
  have rb: "\<forall>e \<in> kd_entries r. ps ! nd \<le> fst e ! nd" using Node.prems(1) by simp
  have inl: "\<forall>e \<in> kd_entries l. in_rect dm ?lrc (fst e)"
  proof
    fix e assume e: "e \<in> kd_entries l"
    then have "in_rect dm rc (fst e)" using Node.prems(5) by simp
    moreover have "fst e ! nd \<le> ps ! nd" using lb e by fastforce
    ultimately show "in_rect dm ?lrc (fst e)" using Node.prems(4) by (rule in_rect_slice_max)
  qed
  have inr: "\<forall>e \<in> kd_entries r. in_rect dm ?rrc (fst e)"
  proof
    fix e assume e: "e \<in> kd_entries r"
    then have "in_rect dm rc (fst e)" using Node.prems(5) by simp
    moreover have "ps ! nd \<le> fst e ! nd" using rb e by fastforce
    ultimately show "in_rect dm ?rrc (fst e)" using Node.prems(3) by (rule in_rect_slice_min)
  qed
  have okl: "\<And>res'. nearest_ok ?D (kd_entries l) (kd_nodes l) res' (kd_nearest_i_fl fl l p res' ?lrc)"
    by (rule Node.IH(1)[OF invl _ _ _ inl]) (simp_all add: Node.prems)
  have okr: "\<And>res'. nearest_ok ?D (kd_entries r) (kd_nodes r) res' (kd_nearest_i_fl fl r p res' ?rrc)"
    by (rule Node.IH(2)[OF invr _ _ _ inr]) (simp_all add: Node.prems)
  have hl: "\<forall>e \<in> kd_entries l. hyperrect_dist_sq_fl fl ?lrc p \<le> ?D (fst e)"
    using inl hyperrect_dist_sq_fl_le[OF fl, of ?lrc dm] Node.prems(2) by simp
  have hr: "\<forall>e \<in> kd_entries r. hyperrect_dist_sq_fl fl ?rrc p \<le> ?D (fst e)"
    using inr hyperrect_dist_sq_fl_le[OF fl, of ?rrc dm] Node.prems(2) by simp
  define dsq where "dsq = node_dist_sq_fl fl dm ps p"
  have dsq: "dsq = ?D (pos ?me)" by (simp add: dsq_def)
  show ?case
  proof (cases "fl_sub fl (p ! nd - ps ! nd) \<le> 0")
    case True
    define res1 where "res1 = kd_nearest_i_fl fl l p res ?lrc"
    define res2 where "res2 = (if dsq < snd res1 then (?me, dsq) else res1)"
    define res3 where "res3 = (if hyperrect_dist_sq_fl fl ?rrc p < snd res2
                               then kd_nearest_i_fl fl r p res2 ?rrc else res2)"
    have eq: "kd_nearest_i_fl fl ?me p res rc = res3"
      unfolding kd_nearest_i_fl_Node Let_def res3_def res2_def res1_def dsq_def Node.prems(2)
      using True by simp
    have "nearest_ok ?D (insert (pos ?me, dat) (kd_entries l \<union> kd_entries r))
            (insert ?me (kd_nodes l \<union> kd_nodes r)) res res3"
      by (rule nearest_ok_step[OF _ res2_def dsq okr hr res3_def]) (simp add: res1_def okl)
    then show ?thesis unfolding eq by simp
  next
    case False
    define res1 where "res1 = kd_nearest_i_fl fl r p res ?rrc"
    define res2 where "res2 = (if dsq < snd res1 then (?me, dsq) else res1)"
    define res3 where "res3 = (if hyperrect_dist_sq_fl fl ?lrc p < snd res2
                               then kd_nearest_i_fl fl l p res2 ?lrc else res2)"
    have eq: "kd_nearest_i_fl fl ?me p res rc = res3"
      unfolding kd_nearest_i_fl_Node Let_def res3_def res2_def res1_def dsq_def Node.prems(2)
      using False by simp
    have "nearest_ok ?D (insert (pos ?me, dat) (kd_entries r \<union> kd_entries l))
            (insert ?me (kd_nodes r \<union> kd_nodes l)) res res3"
      by (rule nearest_ok_step[OF _ res2_def dsq okl hl res3_def]) (simp add: res1_def okr)
    then show ?thesis unfolding eq by (simp add: Un_commute)
  qed
qed

lemma kd_nearest_fl_minimal:
  assumes fl: "fl_rounding fl"
    and k: "0 < k" and ne: "pts \<noteq> []" and len: "\<forall>(p, d) \<in> set pts. length p = k"
  shows "\<exists>n. kd_nearest_fl fl (kd_build k pts) q = Some \<lparr>rlist = [\<lparr>item = n, dist_sq = - 1\<rparr>], rsize = 1\<rparr>
            \<and> (pos n, data n) \<in> set pts
            \<and> (\<forall>(p, d) \<in> set pts. node_dist_sq_fl fl k (pos n) q \<le> node_dist_sq_fl fl k p q)"
proof -
  let ?kd = "kd_build k pts"
  let ?D = "\<lambda>v. node_dist_sq_fl fl k v q"
  have len': "\<forall>(p, d) \<in> set pts. k \<le> length p" using len by auto
  from trect_kd_build[OF len' ne] obtain rc where
    rc: "trect ?kd = Some rc" "rdim rc = k" "length (rmin rc) = k" "length (rmax rc) = k"
        "\<forall>(p, d) \<in> set pts. in_rect k rc p" by blast
  have ent: "kd_entries (troot ?kd) = set pts"
  proof -
    have "(\<lambda>(p, d). (take k p, d)) ` set pts = (\<lambda>e. e) ` set pts"
      by (rule image_cong) (use len in auto)
    then show ?thesis by (simp add: kd_entries_kd_build)
  qed
  have root: "troot ?kd \<noteq> Null" using troot_kd_build_Null[of k pts] ne by simp
  have rootn: "troot ?kd \<in> kd_nodes (troot ?kd)" using root by (cases "troot ?kd") auto
  have dup: "hyperrect_duplicate rc = rc" using rc(2,3,4) by (simp add: hyperrect_duplicate_id)
  define res0 where "res0 = (troot ?kd, node_dist_sq_fl fl k (pos (troot ?kd)) q)"
  define res where "res = kd_nearest_i_fl fl (troot ?kd) q res0 rc"
  have inr: "\<forall>e \<in> kd_entries (troot ?kd). in_rect k rc (fst e)"
    unfolding ent using rc(5) by auto
  have ok: "nearest_ok ?D (kd_entries (troot ?kd)) (kd_nodes (troot ?kd)) res0 res"
    unfolding res_def
    by (rule kd_nearest_i_fl_ok[OF fl kd_inv_kd_build[OF k] rc(2,3,4) inr])
  have min: "\<forall>e \<in> set pts. snd res \<le> ?D (fst e)"
    using ok unfolding nearest_ok_def ent by blast
  have mem: "fst res \<in> kd_nodes (troot ?kd) \<and> snd res = ?D (pos (fst res))"
    using ok rootn unfolding nearest_ok_def res0_def by auto
  then have nn: "fst res \<noteq> Null" using kd_nodes_not_Null by blast
  have "kd_nearest_fl fl ?kd q = Some \<lparr>rlist = [\<lparr>item = fst res, dist_sq = - 1\<rparr>], rsize = 1\<rparr>"
    using nn by (cases res) (simp add: kd_nearest_fl_def rc(1) dup tdim_kd_build Let_def res0_def[symmetric]
        res_def[symmetric] rlist_insert_def)
  moreover have "(pos (fst res), data (fst res)) \<in> set pts"
    using mem kd_nodes_entries[of "fst res" "troot ?kd"] ent by simp
  moreover have "\<forall>(p, d) \<in> set pts. node_dist_sq_fl fl k (pos (fst res)) q \<le> node_dist_sq_fl fl k p q"
    using min mem by auto
  ultimately show ?thesis by blast
qed

lemma kd_nearest_fl_quarter_tie:
  "map_option res_data
     (kd_nearest_fl fl_quarter (kd_build 2 [([3::real, 1 / 4], 0::nat), ([3, 0], 1)]) [0, 0]) = Some [0]
   \<and> node_dist_sq_fl fl_quarter 2 [3, 1 / 4] [0, 0] = 9
   \<and> node_dist_sq_fl fl_quarter 2 [3, 0] [0, 0] = 9
   \<and> node_dist_sq 2 [3, 0] [0, 0] < node_dist_sq 2 [3, 1 / 4] [0, 0]"
  by code_simp

lemma kd_nearest_i_not_Null:
  "fst res \<noteq> Null \<Longrightarrow> fst (kd_nearest_i t p res rc) \<noteq> Null"
proof (induction t arbitrary: res rc)
  case Null
  then show ?case by simp
next
  case (Node ps nd dat l r)
  show ?case
    unfolding kd_nearest_i_Node Let_def
    using Node.prems by (auto intro!: Node.IH)
qed

lemma kd_nearest_create: "kd_nearest (kd_create k) q = None"
  by (simp add: kd_nearest_def kd_create_def)

lemma kd_nearest_nonempty:
  assumes "pts \<noteq> []"
  shows "\<exists>n. n \<noteq> Null \<and> kd_nearest (kd_build k pts) q = Some \<lparr>rlist = [\<lparr>item = n, dist_sq = - 1\<rparr>], rsize = 1\<rparr>"
proof -
  let ?kd = "kd_build k pts"
  obtain rc where rc: "trect ?kd = Some rc"
    using trect_kd_build_None[of k pts] assms by auto
  have root: "troot ?kd \<noteq> Null" using troot_kd_build_Null[of k pts] assms by simp
  define res where "res = kd_nearest_i (troot ?kd) q (troot ?kd, node_dist_sq (tdim ?kd) (pos (troot ?kd)) q) (hyperrect_duplicate rc)"
  have nn: "fst res \<noteq> Null"
    unfolding res_def by (rule kd_nearest_i_not_Null) (simp add: root)
  have "kd_nearest ?kd q = Some \<lparr>rlist = [\<lparr>item = fst res, dist_sq = - 1\<rparr>], rsize = 1\<rparr>"
    using nn by (cases res) (simp add: kd_nearest_def rc Let_def res_def[symmetric] rlist_insert_def)
  then show ?thesis using nn by blast
qed

lemma markDimmerPeaks_inv:
  assumes "n \<le> length st"
  shows "suppress_inv (brighter_neighbor (createKDTree x y n) x y h r_removal) st n
           (snd (markDimmerPeaks x y h st r_removal r_neighbors n),
            fst (markDimmerPeaks x y h st r_removal r_neighbors n))"
proof -
  let ?kd = "createKDTree x y n"
  have eq: "markDimmerPeaks_body ?kd x y h r_removal r_neighbors
              = suppress_body (brighter_neighbor ?kd x y h r_removal) ?kd x y r_neighbors"
    by (rule ext) (rule markDimmerPeaks_body_suppress)
  have "suppress_inv (brighter_neighbor ?kd x y h r_removal) st n
          (fold (markDimmerPeaks_body ?kd x y h r_removal r_neighbors) [0..<n] (st, 0))"
    unfolding eq by (rule suppress_fold[OF assms])
  then show ?thesis
    by (cases "fold (markDimmerPeaks_body ?kd x y h r_removal r_neighbors) [0..<n] (st, 0)")
       (simp add: markDimmerPeaks_def Let_def)
qed


lemma suppress_inv_ERROR:
  "suppress_inv D st m (s, r) \<Longrightarrow> j < length st \<Longrightarrow> s ! j = ERROR \<longleftrightarrow> st ! j = ERROR \<or> (j < m \<and> D j)"
  unfolding suppress_inv_def fst_conv by blast


lemma suppress_inv_count:
  "suppress_inv D st m (s, r) \<Longrightarrow> r = int (card {j. j < m \<and> st ! j \<noteq> ERROR \<and> D j})"
  unfolding suppress_inv_def snd_conv by blast

lemma suppress_inv_length:
  "suppress_inv D st m (s, r) \<Longrightarrow> length s = length st"
  unfolding suppress_inv_def fst_conv by blast

lemma suppress_inv_count_marked:
  assumes "suppress_inv D st m (s, r)" and "m \<le> length st"
  shows "r = int (card {j. j < m \<and> st ! j \<noteq> ERROR \<and> s ! j = ERROR})"
proof -
  have "{j. j < m \<and> st ! j \<noteq> ERROR \<and> s ! j = ERROR} = {j. j < m \<and> st ! j \<noteq> ERROR \<and> D j}"
    using suppress_inv_ERROR[OF assms(1)] assms(2) by auto
  then show ?thesis using suppress_inv_count[OF assms(1)] by simp
qed

lemma runningIfHasNeighbors_fold:
  assumes "m \<le> length st"
  shows "length (fold (runningIfHasNeighbors_body kd c_x c_y rad) [0..<m] st) = length st
       \<and> (\<forall>j<length st. fold (runningIfHasNeighbors_body kd c_x c_y rad) [0..<m] st ! j
             = (if j < m \<and> st ! j = CONVERGED
                   \<and> rsize (kd_nearest_range kd [c_x ! j, c_y ! j] rad) > 0
                then RUNNING else st ! j))"
  using assms
proof (induction m)
  case 0
  then show ?case by simp
next
  case (Suc m)
  let ?s = "fold (runningIfHasNeighbors_body kd c_x c_y rad) [0..<m] st"
  have mlt: "m < length st" using Suc.prems by simp
  have len: "length ?s = length st" and
    nth: "\<forall>j<length st. ?s ! j = (if j < m \<and> st ! j = CONVERGED
                   \<and> rsize (kd_nearest_range kd [c_x ! j, c_y ! j] rad) > 0
                then RUNNING else st ! j)"
    using Suc.IH mlt by simp_all
  have sm: "?s ! m = st ! m" using nth mlt by simp
  have step: "fold (runningIfHasNeighbors_body kd c_x c_y rad) [0..<Suc m] st
               = runningIfHasNeighbors_body kd c_x c_y rad m ?s" by simp
  have nrne: "(st ! m \<noteq> RUNNING \<and> st ! m \<noteq> ERROR) = (st ! m = CONVERGED)"
    by (cases "st ! m") simp_all
  have body: "runningIfHasNeighbors_body kd c_x c_y rad m ?s
      = (if st ! m = CONVERGED \<and> rsize (kd_nearest_range kd [c_x ! m, c_y ! m] rad) > 0
         then ?s[m := RUNNING] else ?s)"
    using nrne by (auto simp: runningIfHasNeighbors_body_def Let_def sm)
  show ?case unfolding step body
  proof (intro conjI allI impI)
    show "length (if st ! m = CONVERGED \<and> rsize (kd_nearest_range kd [c_x ! m, c_y ! m] rad) > 0
         then ?s[m := RUNNING] else ?s) = length st" using len by simp
  next
    fix j assume j: "j < length st"
    show "(if st ! m = CONVERGED \<and> rsize (kd_nearest_range kd [c_x ! m, c_y ! m] rad) > 0
         then ?s[m := RUNNING] else ?s) ! j
       = (if j < Suc m \<and> st ! j = CONVERGED
                   \<and> rsize (kd_nearest_range kd [c_x ! j, c_y ! j] rad) > 0
                then RUNNING else st ! j)"
      using nth[rule_format, OF j] j len
      by (cases "j = m") (auto simp: less_Suc_eq)
  qed
qed


lemma runningIfHasNeighbors_length:
  assumes "nc \<le> length st"
  shows "length (runningIfHasNeighbors c_x c_y n_x n_y st rad nc nn) = length st"
  using runningIfHasNeighbors_fold[OF assms(1), of "createKDTree n_x n_y nn" c_x c_y rad]
  by (simp add: runningIfHasNeighbors_def Let_def)

lemma brighter_neighbor_iff:
  "brighter_neighbor kd x y h r i \<longleftrightarrow>
     (2 \<le> rsize (kd_nearest_range kd [x ! i, y ! i] r)
      \<and> (\<exists>k \<in> set (res_data (kd_nearest_range kd [x ! i, y ! i] r)). h ! k > h ! i))"
  by (auto simp: brighter_neighbor_def Let_def list_ex_iff)

lemma brighter_neighbor_exists:
  assumes "brighter_neighbor (createKDTree x y n) x y h r i"
  shows "\<exists>k<n. h ! k > h ! i"
  using assms res_data_createKDTree_less unfolding brighter_neighbor_iff by blast

lemma markDimmerPeaks_body_step:
  assumes i: "i < n" and len: "length st = n" and ne: "st ! i \<noteq> ERROR"
  shows "(rsize (kd_nearest_range (createKDTree x y n) [x ! i, y ! i] r_removal) < 2 \<longrightarrow>
            markDimmerPeaks_body (createKDTree x y n) x y h r_removal r_neighbors i (st, removed)
              = (st, removed))
       \<and> (\<not> rsize (kd_nearest_range (createKDTree x y n) [x ! i, y ! i] r_removal) < 2
           \<and> (\<exists>k \<in> set (res_data (kd_nearest_range (createKDTree x y n) [x ! i, y ! i] r_removal)).
                  h ! k > h ! i) \<longrightarrow>
            snd (markDimmerPeaks_body (createKDTree x y n) x y h r_removal r_neighbors i (st, removed))
              = removed + 1
          \<and> fst (markDimmerPeaks_body (createKDTree x y n) x y h r_removal r_neighbors i (st, removed)) ! i
              = ERROR
          \<and> (\<forall>k \<in> set (res_data (kd_nearest_range (createKDTree x y n) [x ! i, y ! i] r_neighbors)).
                 k \<noteq> i \<and> st ! k = CONVERGED \<longrightarrow>
                 fst (markDimmerPeaks_body (createKDTree x y n) x y h r_removal r_neighbors i
                        (st, removed)) ! k = RUNNING))"
proof (intro conjI impI)
  let ?kd = "createKDTree x y n"
  show "markDimmerPeaks_body ?kd x y h r_removal r_neighbors i (st, removed) = (st, removed)"
    if "rsize (kd_nearest_range ?kd [x ! i, y ! i] r_removal) < 2"
    using that by (simp add: markDimmerPeaks_body_def Let_def)
  assume a: "\<not> rsize (kd_nearest_range ?kd [x ! i, y ! i] r_removal) < 2
           \<and> (\<exists>k \<in> set (res_data (kd_nearest_range ?kd [x ! i, y ! i] r_removal)). h ! k > h ! i)"
  then have D: "brighter_neighbor ?kd x y h r_removal i"
    unfolding brighter_neighbor_iff by auto
  have eq: "markDimmerPeaks_body ?kd x y h r_removal r_neighbors i (st, removed)
      = (neighbors_running ?kd [x ! i, y ! i] r_neighbors (st[i := ERROR]), removed + 1)"
    unfolding markDimmerPeaks_body_suppress using ne D by (rule suppress_body_mark)
  show "snd (markDimmerPeaks_body ?kd x y h r_removal r_neighbors i (st, removed)) = removed + 1"
    unfolding eq by simp
  have il: "i < length (st[i := ERROR])" using i len by simp
  show "fst (markDimmerPeaks_body ?kd x y h r_removal r_neighbors i (st, removed)) ! i = ERROR"
    unfolding eq fst_conv neighbors_running_nth[OF il] using i len by simp
  show "\<forall>k \<in> set (res_data (kd_nearest_range ?kd [x ! i, y ! i] r_neighbors)).
                 k \<noteq> i \<and> st ! k = CONVERGED \<longrightarrow>
                 fst (markDimmerPeaks_body ?kd x y h r_removal r_neighbors i (st, removed)) ! k = RUNNING"
  proof (intro ballI impI)
    fix k assume k: "k \<in> set (res_data (kd_nearest_range ?kd [x ! i, y ! i] r_neighbors))"
      and c: "k \<noteq> i \<and> st ! k = CONVERGED"
    have "k < n" using k by (rule res_data_createKDTree_less)
    then have kl: "k < length (st[i := ERROR])" using len by simp
    show "fst (markDimmerPeaks_body ?kd x y h r_removal r_neighbors i (st, removed)) ! k = RUNNING"
      unfolding eq fst_conv neighbors_running_nth[OF kl] using k c by simp
  qed
qed

lemma markDimmerPeaks_count:
  assumes "length st = n"
  shows "fst (markDimmerPeaks x y h st r_removal r_neighbors n)
       = int (card {i. i < n \<and> st ! i \<noteq> ERROR
                     \<and> snd (markDimmerPeaks x y h st r_removal r_neighbors n) ! i = ERROR})"
proof -
  have le: "n \<le> length st" using assms by simp
  show ?thesis
    by (rule suppress_inv_count_marked[OF markDimmerPeaks_inv[OF le] le])
qed

lemma markDimmerPeaks_ERROR_iff:
  assumes "length st = n" and "j < n"
  shows "snd (markDimmerPeaks x y h st r_removal r_neighbors n) ! j = ERROR
     \<longleftrightarrow> st ! j = ERROR \<or> brighter_neighbor (createKDTree x y n) x y h r_removal j"
proof -
  have le: "n \<le> length st" using assms by simp
  have j: "j < length st" using assms by simp
  show ?thesis
    using suppress_inv_ERROR[OF markDimmerPeaks_inv[OF le] j] assms(2) by simp
qed

lemma fold_preserves:
  assumes "\<And>a s. P s \<Longrightarrow> P (f a s)" and "P s"
  shows "P (fold f as s)"
  using assms(2) by (induction as arbitrary: s) (auto intro: assms(1))

lemma flm_pixel_cases:
  "flm_pixel zi sz ez yi sy ey xi s = s
   \<or> (\<not> returned s
      \<and> (\<exists>s1. (s1 = s \<or> (\<exists>t w. s1 = s\<lparr>fd := (fd s)\<lparr>taken := t\<rparr>,
                                            written := written s @ [w], np := np s + 1\<rparr>))
             \<and> flm_pixel zi sz ez yi sy ey xi s
                  = (if np s1 \<ge> n_peaks (fd s) then s1\<lparr>returned := True\<rparr> else s1)))"
proof (cases "returned s \<or> \<not> pixel (fd s) zi yi xi > threshold (fd s) \<or> \<not> is_taken (fd s) zi yi xi < 1")
  case True
  then have "flm_pixel zi sz ez yi sy ey xi s = s"
    by (auto simp: flm_pixel_def Let_def)
  then show ?thesis by simp
next
  case False
  then have nr: "\<not> returned s" by simp
  let ?f = "fd s"
  let ?sx0 = "c_trunc (of_int xi - of_int \<lceil>radius ?f\<rceil>)"
  let ?sx = "if ?sx0 < 0 then 0 else ?sx0"
  let ?ex0 = "c_trunc (of_int xi + of_int \<lceil>radius ?f\<rceil>)"
  let ?ex = "if ?ex0 \<ge> xsize ?f then xsize ?f - 1 else ?ex0"
  let ?cur = "pixel ?f zi yi xi"
  let ?s1 = "if isLocalMaxima ?f ?cur sz ez sy yi ey ?sx xi ?ex
             then s\<lparr>fd := ?f\<lparr>taken := (taken ?f)[nat zi :=
                                        (taken ?f ! nat zi)[nat (yi * xsize ?f + xi) :=
                                           is_taken ?f zi yi xi + 1]]\<rparr>,
                    written := written s @ [(z_values ?f ! nat zi, of_int yi, of_int xi, ?cur)],
                    np := np s + 1\<rparr>
             else s"
  have eq: "flm_pixel zi sz ez yi sy ey xi s
          = (if np ?s1 \<ge> n_peaks ?f then ?s1\<lparr>returned := True\<rparr> else ?s1)"
    using False by (simp add: flm_pixel_def Let_def)
  have "?s1 = s \<or> (\<exists>t w. ?s1 = s\<lparr>fd := ?f\<lparr>taken := t\<rparr>, written := written s @ [w], np := np s + 1\<rparr>)"
  proof (cases "isLocalMaxima ?f ?cur sz ez sy yi ey ?sx xi ?ex")
    case True
    then have "?s1 = s\<lparr>fd := ?f\<lparr>taken := (taken ?f)[nat zi :=
                                        (taken ?f ! nat zi)[nat (yi * xsize ?f + xi) :=
                                           is_taken ?f zi yi xi + 1]]\<rparr>,
                    written := written s @ [(z_values ?f ! nat zi, of_int yi, of_int xi, ?cur)],
                    np := np s + 1\<rparr>"
      by simp
    then show ?thesis by blast
  next
    case False
    then show ?thesis by simp
  qed
  then show ?thesis using nr eq by blast
qed

lemma flm_pixel_inv:
  assumes "flm_inv N s"
  shows "flm_inv N (flm_pixel zi sz ez yi sy ey xi s)"
proof -
  from flm_pixel_cases[of zi sz ez yi sy ey xi s]
  consider "flm_pixel zi sz ez yi sy ey xi s = s"
    | s1 where "\<not> returned s"
        "s1 = s \<or> (\<exists>t w. s1 = s\<lparr>fd := (fd s)\<lparr>taken := t\<rparr>, written := written s @ [w], np := np s + 1\<rparr>)"
        "flm_pixel zi sz ez yi sy ey xi s = (if np s1 \<ge> n_peaks (fd s) then s1\<lparr>returned := True\<rparr> else s1)"
    by blast
  then show ?thesis
  proof cases
    case 1
    then show ?thesis using assms by simp
  next
    case (2 s1)
    have a: "np s = int (length (written s))" "n_peaks (fd s) = N" "np s < N"
      using assms 2(1) by (simp_all add: flm_inv_def)
    have b: "np s1 = int (length (written s1)) \<and> n_peaks (fd s1) = N \<and> \<not> returned s1 \<and> np s1 \<le> N"
      using 2(2) a 2(1) by auto
    show ?thesis
      unfolding 2(3) using a(2) b by (auto simp: flm_inv_def)
  qed
qed

lemma flm_row_inv: "flm_inv N s \<Longrightarrow> flm_inv N (flm_row zi sz ez yi s)"
  unfolding flm_row_def Let_def by (rule fold_preserves) (rule flm_pixel_inv)

lemma flm_plane_inv: "flm_inv N s \<Longrightarrow> flm_inv N (flm_plane zi s)"
  unfolding flm_plane_def Let_def by (rule fold_preserves) (rule flm_row_inv)

lemma findLocalMaxima_bounded:
  assumes "1 \<le> n_peaks f"
  shows "int (length (snd (findLocalMaxima f))) \<le> n_peaks f
       \<and> n_peaks (fst (findLocalMaxima f)) = int (length (snd (findLocalMaxima f)))"
proof -
  let ?init = "\<lparr>fd = f, np = 0, written = [], returned = False\<rparr>"
  let ?s = "fold flm_plane [0..zsize f - 1] ?init"
  have "flm_inv (n_peaks f) ?init" using assms by (simp add: flm_inv_def)
  then have "flm_inv (n_peaks f) ?s"
    by (rule fold_preserves[where P = "flm_inv (n_peaks f)" and f = flm_plane, rotated]) (rule flm_plane_inv)
  then have inv: "np ?s = int (length (written ?s))" "n_peaks (fd ?s) = n_peaks f"
      "if returned ?s then np ?s = n_peaks f else np ?s < n_peaks f"
    unfolding flm_inv_def by blast+
  show ?thesis
  proof (cases "returned ?s")
    case True
    then have "findLocalMaxima f = (fd ?s, written ?s)" by (simp add: findLocalMaxima_def Let_def)
    then show ?thesis using inv True by simp
  next
    case False
    then have "findLocalMaxima f = ((fd ?s)\<lparr>n_peaks := np ?s\<rparr>, written ?s)"
      by (simp add: findLocalMaxima_def Let_def)
    then show ?thesis using inv False by simp
  qed
qed

lemma flm_pixel_returned: "returned s \<Longrightarrow> flm_pixel zi sz ez yi sy ey xi s = s"
  by (simp add: flm_pixel_def)

lemma nearest_query_boundary:
  "kd_nearest_range (createKDTree [0, 0] [0, 5] 2) [- 1, 5] 1 = \<lparr>rlist = [], rsize = 0\<rparr>"
  by code_simp

lemma nearest_query_zero_radius:
  "kd_nearest_range (createKDTree [0, 0] [0, 1] 2) [0, 1] 0 = \<lparr>rlist = [], rsize = 0\<rparr>"
  by code_simp

lemma isLocalMaxima_iff:
  "isLocalMaxima f cur sz ez sy cy ey sx cx ex \<longleftrightarrow>
     (\<forall>zi \<in> {sz..ez}. \<forall>yi \<in> {sy..ey}. \<forall>xi \<in> {sx..ex}.
        (xi - cx) * (xi - cx) + (yi - cy) * (yi - cy) \<le> c_trunc (radius f * radius f) \<longrightarrow>
          (if yi \<le> cy \<and> xi \<le> cx then pixel f zi yi xi \<le> cur else pixel f zi yi xi < cur))"
  by (auto simp: isLocalMaxima_def Let_def list_all_iff not_less not_le)

lemma isLocalMaxima_self:
  "isLocalMaxima f (pixel f cz cy cx) cz cz cy cy cy cx cx cx"
  by (simp add: isLocalMaxima_iff)

lemma isLocalMaxima_dominated:
  assumes "isLocalMaxima f (pixel f cz cy cx) sz ez sy cy ey sx cx ex"
    and "zi \<in> {sz..ez}" "yi \<in> {sy..ey}" "xi \<in> {sx..ex}"
    and "(xi - cx) * (xi - cx) + (yi - cy) * (yi - cy) \<le> c_trunc (radius f * radius f)"
    and "pixel f zi yi xi = pixel f cz cy cx"
  shows "yi \<le> cy \<and> xi \<le> cx"
  using assms unfolding isLocalMaxima_iff by (metis less_irrefl)

section \<open>The claims\<close>

subsection \<open>C1\<close>

text \<open>
  Claim C1 fails on the code. Points \<open>(0,0)\<close> and \<open>(0,5)\<close> are inserted; the query point
  \<open>(-1,5)\<close> is at distance exactly 1 from the second one. \<^verbatim>\<open>find_nearest\<close> accepts a node at
  squared distance \<open>\<le> r\<^sup>2\<close>, but it descends into the second subtree of a node only if the
  distance to the splitting plane is strictly below \<open>r\<close>: at the root the plane \<open>x = 0\<close> is at
  distance 1 and the subtree that holds \<open>(0,5)\<close> is skipped. For the same reason a query
  with radius 0 at the inserted point \<open>(0,1)\<close> does not return it.
\<close>

theorem kd_nearest_range_misses_boundary:
  "res_data (kd_nearest_range (kd_build 2 [([0, 0], 0::nat), ([0, 5], 1)]) [- 1, 5] 1) = []
   \<and> map snd (spec_range 2 [([0, 0], 0::nat), ([0, 5], 1)] [- 1, 5] 1) = [1]
   \<and> res_data (kd_nearest_range (kd_build 2 [([0, 0], 0::nat), ([0, 1], 1)]) [0, 1] 0) = []
   \<and> map snd (spec_range 2 [([0, 0], 0::nat), ([0, 1], 1)] [0, 1] 0) = [1]"
  by code_simp

subsection \<open>C2\<close>

text \<open>
  Claim C2 fails on the code. Four peaks at \<open>(0,0)\<close>, \<open>(0,5)\<close>, \<open>(-1,5)\<close>, \<open>(-3/2,5)\<close> with
  heights 1, 10, 5, 2, none \<^verbatim>\<open>ERROR\<close>, and \<open>r_removal = 1\<close>. Peak 2 is not \<^verbatim>\<open>ERROR\<close> when it
  is visited, its range query returns two peaks (3 and 2), and peak 1 lies at distance
  exactly 1 from it and is higher; the claim has peak 2 set to \<^verbatim>\<open>ERROR\<close>. The query does not
  return peak 1, peak 2 keeps its status, and the count returned is 1.
  The same for \<open>r_neighbors\<close>: with the last peak at \<open>(-5/4,5)\<close> and of height 20,
  \<open>r_removal = 1/2\<close> and \<open>r_neighbors = 1\<close>, peak 2 is set to \<^verbatim>\<open>ERROR\<close>; peak 1 is \<^verbatim>\<open>CONVERGED\<close>
  and at distance exactly 1 from peak 2, and the claim has it set to \<^verbatim>\<open>RUNNING\<close>. It stays
  \<^verbatim>\<open>CONVERGED\<close>. All coordinates, radii and distances are exact in binary64.
\<close>

theorem markDimmerPeaks_misses_boundary:
  "[RUNNING, RUNNING, RUNNING, RUNNING] ! 2 \<noteq> ERROR
   \<and> rsize (kd_nearest_range (createKDTree [0, 0, - 1, - 3 / 2] [0, 5, 5, 5] 4)
              [[0, 0, - 1, - 3 / 2] ! 2, [0, 5, 5, 5] ! 2] 1) = 2
   \<and> res_data (kd_nearest_range (createKDTree [0, 0, - 1, - 3 / 2] [0, 5, 5, 5] 4)
                 [[0, 0, - 1, - 3 / 2] ! 2, [0, 5, 5, 5] ! 2] 1) = [3, 2]
   \<and> node_dist_sq 2 [[0, 0, - 1, - 3 / 2] ! 1, [0, 5, 5, 5] ! 1]
                     [[0, 0, - 1, - 3 / 2] ! 2, [0, 5, 5, 5] ! 2] \<le> SQ 1
   \<and> [1, 10, 5, 2 :: real] ! 1 > [1, 10, 5, 2] ! 2
   \<and> markDimmerPeaks [0, 0, - 1, - 3 / 2] [0, 5, 5, 5] [1, 10, 5, 2]
        [RUNNING, RUNNING, RUNNING, RUNNING] 1 1 4
       = (1, [RUNNING, RUNNING, RUNNING, ERROR])
   \<and> [RUNNING, CONVERGED, RUNNING, RUNNING] ! 1 = CONVERGED
   \<and> node_dist_sq 2 [[0, 0, - 1, - 5 / 4] ! 1, [0, 5, 5, 5] ! 1]
                     [[0, 0, - 1, - 5 / 4] ! 2, [0, 5, 5, 5] ! 2] \<le> SQ 1
   \<and> res_data (kd_nearest_range (createKDTree [0, 0, - 1, - 5 / 4] [0, 5, 5, 5] 4)
                 [[0, 0, - 1, - 5 / 4] ! 2, [0, 5, 5, 5] ! 2] 1) = [3, 2]
   \<and> markDimmerPeaks [0, 0, - 1, - 5 / 4] [0, 5, 5, 5] [1, 10, 5, 20]
        [RUNNING, CONVERGED, RUNNING, RUNNING] (1 / 2) 1 4
       = (1, [RUNNING, CONVERGED, ERROR, RUNNING])"
  by code_simp

subsection \<open>C3\<close>

text \<open>
  Claim C3 fails on the code. One plane of 2 by 2 pixels, the pixels \<open>(y,x) = (0,1)\<close> and
  \<open>(1,0)\<close> with intensity 5, the other two with intensity 0, radius 2, no margin, nothing
  taken, threshold 0. The two bright pixels are within radius of each other. Neither
  satisfies \<open>yi \<le> cy \<and> xi \<le> cx\<close> relative to the other, so each disqualifies the other with
  \<open>\<ge>\<close>, and no local maximum is reported; the claim has the pixel \<open>(1,0)\<close> reported.
\<close>

theorem findLocalMaxima_antidiagonal_tie:
  "findLocalMaxima \<lparr>margin = 0, n_peaks = 4, z_range = 0, xsize = 2, ysize = 2, zsize = 1,
       radius = 2, threshold = 0, z_values = [0], taken = [[0, 0, 0, 0]], images = [[0, 5, 5, 0]]\<rparr>
   = (\<lparr>margin = 0, n_peaks = 0, z_range = 0, xsize = 2, ysize = 2, zsize = 1,
       radius = 2, threshold = 0, z_values = [0], taken = [[0, 0, 0, 0]], images = [[0, 5, 5, 0]]\<rparr>, [])
   \<and> isLocalMaxima \<lparr>margin = 0, n_peaks = 4, z_range = 0, xsize = 2, ysize = 2, zsize = 1,
       radius = 2, threshold = 0, z_values = [0], taken = [[0, 0, 0, 0]], images = [[0, 5, 5, 0]]\<rparr>
       5 0 0 0 1 1 0 0 1 = False
   \<and> isLocalMaxima \<lparr>margin = 0, n_peaks = 4, z_range = 0, xsize = 2, ysize = 2, zsize = 1,
       radius = 2, threshold = 0, z_values = [0], taken = [[0, 0, 0, 0]], images = [[0, 5, 5, 0]]\<rparr>
       5 0 0 0 0 1 0 1 1 = False"
  by code_simp

subsection \<open>C4\<close>



subsection \<open>C5\<close>

text \<open>
  Claim C5 fails on the code, by the defect of claim C1. Index points \<open>(0,0)\<close> and \<open>(0,5)\<close>,
  query point \<open>(-1,5)\<close>, radius 1: the second index point is at distance 1, yet the answer is
  the sentinel pair. Index points \<open>(0,0)\<close> and \<open>(0,1)\<close>, query point \<open>(0,1)\<close>, radius 0: the
  query point is an index point, yet the answer is the sentinel pair.
\<close>

theorem nearestKDTree_misses_boundary:
  "nearestKDTree (createKDTree [0, 0] [0, 5] 2) [- 1] [5] [0] [0] 1 1 = ([- 1], [- 1])
   \<and> sqrt (SQ ([0, 0] ! 1 - [- 1] ! 0) + SQ ([0, 5] ! 1 - [5] ! 0)) \<le> 1
   \<and> nearestKDTree (createKDTree [0, 0] [0, 1] 2) [0] [1] [0] [0] 0 1 = ([- 1], [- 1])
   \<and> [[0, 0] ! 1, [0, 1] ! 1] = [[0] ! 0, [1] ! 0 :: real]"
  by (simp add: nearestKDTree_def nearestKDTree_body_def nearest_query_boundary
        nearest_query_zero_radius SQ_def)

subsection \<open>C6\<close>

text \<open>
  Claim C6, as stated, fails on ties. Points \<open>(0,0)\<close>, \<open>(10,0)\<close>, \<open>(10,-2)\<close> are inserted in
  this order with payloads 0, 1, 2. The query point \<open>(10,-1)\<close> is at distance 1 from both
  the second and the third point; \<^verbatim>\<open>kd_nearest\<close> returns the third, the specification's
  first-inserted rule asks for the second.
\<close>

theorem kd_nearest_tie_counterexample:
  "map_option res_data
     (kd_nearest (kd_build 2 [([0::real, 0], 0::nat), ([10, 0], 1), ([10, - 2], 2)]) [10, - 1]) = Some [2]
   \<and> map_option snd
       (spec_nearest 2 [([0::real, 0], 0::nat), ([10, 0], 1), ([10, - 2], 2)] [10, - 1]) = Some 1"
  by code_simp

text \<open>
  Claim C6, amended. For every arithmetic whose three roundings are monotone, keep zero and
  keep their own results, and for a tree of dimension \<open>k > 0\<close> built by inserting a non-empty
  list of points with \<open>k\<close> coordinates each, \<^verbatim>\<open>kd_nearest\<close> returns a result set with exactly
  one entry; it is one of the inserted points, and no inserted point has a smaller squared
  distance to the query point as the code computes it. Nothing is said about which of
  several points with the same computed distance is returned, whether they are
  equidistant or made so by rounding.
\<close>

theorem kd_nearest_computed_minimiser:
  assumes "fl_rounding fl" and "0 < k" and "pts \<noteq> []" and "\<forall>(p, d) \<in> set pts. length p = k"
  shows "\<exists>n. kd_nearest_fl fl (kd_build k pts) q = Some \<lparr>rlist = [\<lparr>item = n, dist_sq = - 1\<rparr>], rsize = 1\<rparr>
            \<and> (pos n, data n) \<in> set pts
            \<and> (\<forall>(p, d) \<in> set pts. node_dist_sq_fl fl k (pos n) q \<le> node_dist_sq_fl fl k p q)"
  using assms by (rule kd_nearest_fl_minimal)

text \<open>
  An instance in the arithmetic that rounds to multiples of 1/4. The points \<open>(3,1/4)\<close> and
  \<open>(3,0)\<close> are inserted in this order with payloads 0 and 1; the computed squared distance
  of both to the query point \<open>(0,0)\<close> is 9, and the search returns the first, although the
  second is the nearer one.
\<close>

theorem kd_nearest_computed_minimiser_witness:
  "fl_rounding fl_quarter
   \<and> (0::nat) < 2
   \<and> [([3::real, 1 / 4], 0::nat), ([3, 0], 1)] \<noteq> []
   \<and> list_all (\<lambda>(p, d). length p = 2) [([3::real, 1 / 4], 0::nat), ([3, 0], 1)]
   \<and> (\<exists>n. kd_nearest_fl fl_quarter (kd_build 2 [([3::real, 1 / 4], 0::nat), ([3, 0], 1)]) [0, 0]
             = Some \<lparr>rlist = [\<lparr>item = n, dist_sq = - 1\<rparr>], rsize = 1\<rparr>
          \<and> (pos n, data n) \<in> set [([3::real, 1 / 4], 0::nat), ([3, 0], 1)]
          \<and> (\<forall>(p, d) \<in> set [([3::real, 1 / 4], 0::nat), ([3, 0], 1)].
                node_dist_sq_fl fl_quarter 2 (pos n) [0, 0] \<le> node_dist_sq_fl fl_quarter 2 p [0, 0]))
   \<and> map_option res_data
        (kd_nearest_fl fl_quarter (kd_build 2 [([3::real, 1 / 4], 0::nat), ([3, 0], 1)]) [0, 0]) = Some [0]
   \<and> node_dist_sq_fl fl_quarter 2 [3, 1 / 4] [0, 0] = 9
   \<and> node_dist_sq_fl fl_quarter 2 [3, 0] [0, 0] = 9
   \<and> node_dist_sq 2 [3, 0] [0, 0] < node_dist_sq 2 [3, 1 / 4] [0, 0]"
proof -
  have h0: "fl_rounding fl_quarter" by (rule fl_rounding_quarter)
  have h1: "(0::nat) < 2" by simp
  have h2: "[([3::real, 1 / 4], 0::nat), ([3, 0], 1)] \<noteq> []" by simp
  have h3: "\<forall>(p, d) \<in> set [([3::real, 1 / 4], 0::nat), ([3, 0], 1)]. length p = 2" by simp
  have h4: "list_all (\<lambda>(p, d). length p = 2) [([3::real, 1 / 4], 0::nat), ([3, 0], 1)]" by simp
  from kd_nearest_computed_minimiser[OF h0 h1 h2 h3, of "[0::real, 0]"] h0 h1 h2 h4
       kd_nearest_fl_quarter_tie
  show ?thesis by blast
qed

subsection \<open>C7\<close>

text \<open>
  Claim C7 fails on the code, by the defect of claim C1. A \<^verbatim>\<open>CONVERGED\<close> current peak at
  \<open>(-1,5)\<close>, new peaks at \<open>(0,0)\<close> and \<open>(0,5)\<close>, radius 1: the second new peak is at distance
  1, yet the current peak stays \<^verbatim>\<open>CONVERGED\<close>.
\<close>

theorem runningIfHasNeighbors_misses_boundary:
  "runningIfHasNeighbors [- 1] [5] [0, 0] [0, 5] [CONVERGED] 1 1 2 = [CONVERGED]
   \<and> node_dist_sq 2 [[0, 0] ! 1, [0, 5] ! 1] [[- 1] ! 0, [5] ! 0] \<le> SQ 1"
  by code_simp

subsection \<open>C8\<close>

text \<open>
  Claim C8 fails on the code for a maximum of 0. One pixel above the threshold and
  \<^verbatim>\<open>n_peaks = 0\<close>: the test \<^verbatim>\<open>np >= n_peaks\<close> comes after the entry has been written, so one
  entry is written, and \<^verbatim>\<open>n_peaks\<close> is still 0 at the return.
\<close>

theorem findLocalMaxima_zero_maximum:
  "findLocalMaxima \<lparr>margin = 0, n_peaks = 0, z_range = 0, xsize = 1, ysize = 1, zsize = 1,
       radius = 1, threshold = 0, z_values = [0], taken = [[0]], images = [[1]]\<rparr>
   = (\<lparr>margin = 0, n_peaks = 0, z_range = 0, xsize = 1, ysize = 1, zsize = 1,
       radius = 1, threshold = 0, z_values = [0], taken = [[1]], images = [[1]]\<rparr>, [(0, 0, 0, 1)])"
  by code_simp

subsection \<open>C9\<close>

text \<open>
  Claim C9. A nearest-neighbour query against a tree without inserted points returns the
  null pointer ("no result") and raises nothing; against a tree with at least one inserted
  point it returns a result set with exactly one entry, which is a node of the tree.
\<close>

theorem kd_nearest_empty_or_single:
  fixes pts :: "(real list \<times> 'a) list"
  shows "kd_nearest (kd_create k :: 'a kdtree) q = None
   \<and> kd_nearest (kd_build k ([] :: (real list \<times> 'a) list)) q = None
   \<and> (pts \<noteq> [] \<longrightarrow>
        (\<exists>rs. kd_nearest (kd_build k pts) q = Some rs
            \<and> length (rlist rs) = 1 \<and> rsize rs = 1 \<and> item (hd (rlist rs)) \<noteq> Null))"
proof -
  have "kd_nearest (kd_build k ([] :: (real list \<times> 'a) list)) q = None"
    by (simp add: kd_build_def kd_nearest_create)
  moreover have "pts \<noteq> [] \<longrightarrow>
        (\<exists>rs. kd_nearest (kd_build k pts) q = Some rs
            \<and> length (rlist rs) = 1 \<and> rsize rs = 1 \<and> item (hd (rlist rs)) \<noteq> Null)"
  proof
    assume "pts \<noteq> []"
    from kd_nearest_nonempty[OF this, of k q] show
      "\<exists>rs. kd_nearest (kd_build k pts) q = Some rs
            \<and> length (rlist rs) = 1 \<and> rsize rs = 1 \<and> item (hd (rlist rs)) \<noteq> Null"
      by auto
  qed
  ultimately show ?thesis by (simp add: kd_nearest_create)
qed

theorem kd_nearest_empty_or_single_witness:
  "[([3::real, 4], 0::nat)] \<noteq> []
   \<and> (\<exists>rs. kd_nearest (kd_build 2 [([3::real, 4], 0::nat)]) [1, 1] = Some rs
          \<and> length (rlist rs) = 1 \<and> rsize rs = 1 \<and> item (hd (rlist rs)) \<noteq> Null)"
  using kd_nearest_empty_or_single[of 2 "[1::real, 1]" "[([3::real, 4], 0::nat)]"] by simp

subsection \<open>C10\<close>

text \<open>
  Claim C10 fails on the code. Two peaks at the same position with heights 10 and 5,
  neither \<^verbatim>\<open>ERROR\<close>, and \<open>r_removal = 0\<close>: peak 0 is at distance 0 from peak 1 and higher, and
  the claim has peak 1 marked. The range query at the position of peak 1 returns peak 0
  only, not peak 1 itself, the size test sends the loop to the next peak, and peak 1 is
  not marked.
  With a neighbour that is already \<^verbatim>\<open>ERROR\<close>: peaks at \<open>(0,0)\<close>, \<open>(0,3)\<close>, \<open>(-2,3)\<close>, \<open>(-2,4)\<close>
  with heights 1, 10, 5, 2, peak 1 \<^verbatim>\<open>ERROR\<close> from the start, and \<open>r_removal = 2\<close>. Peak 1 is at
  distance exactly 2 from peak 2 and higher, and the claim has peak 2 marked. The range
  query of peak 2 returns peaks 3 and 2 only, and peak 2 is not marked.
\<close>

theorem markDimmerPeaks_misses_brighter_neighbor:
  "[RUNNING, RUNNING] ! 1 \<noteq> ERROR
   \<and> [10, 5 :: real] ! 0 > [10, 5] ! 1
   \<and> node_dist_sq 2 [[0, 0] ! 0, [0, 0] ! 0] [[0, 0] ! 1, [0, 0] ! 1] \<le> SQ 0
   \<and> res_data (kd_nearest_range (createKDTree [0, 0] [0, 0] 2) [[0, 0] ! 1, [0, 0] ! 1] 0) = [0]
   \<and> markDimmerPeaks [0, 0] [0, 0] [10, 5] [RUNNING, RUNNING] 0 3 2 = (0, [RUNNING, RUNNING])
   \<and> [RUNNING, ERROR, RUNNING, RUNNING] ! 2 \<noteq> ERROR
   \<and> [1, 10, 5, 2 :: real] ! 1 > [1, 10, 5, 2] ! 2
   \<and> node_dist_sq 2 [[0, 0, - 2, - 2] ! 1, [0, 3, 3, 4] ! 1]
                     [[0, 0, - 2, - 2] ! 2, [0, 3, 3, 4] ! 2] \<le> SQ 2
   \<and> res_data (kd_nearest_range (createKDTree [0, 0, - 2, - 2] [0, 3, 3, 4] 4)
                 [[0, 0, - 2, - 2] ! 2, [0, 3, 3, 4] ! 2] 2) = [3, 2]
   \<and> markDimmerPeaks [0, 0, - 2, - 2] [0, 3, 3, 4] [1, 10, 5, 2]
        [RUNNING, ERROR, RUNNING, RUNNING] 2 2 4
       = (1, [RUNNING, ERROR, RUNNING, ERROR])"
  by code_simp

end
